theory Spec2Isabelle
  imports Main
begin

text \<open>
  The Node.js backend of the package manager, \<^verbatim>\<open>internal/backends/nodejs/nodejs.go\<close>:
  the selection of the latest version in \<^verbatim>\<open>Info\<close>, \<^verbatim>\<open>ListSpecfile\<close>, \<^verbatim>\<open>ListLockfile\<close>
  and \<^verbatim>\<open>Guess\<close>, over models of the Go library functions that they call.
\<close>

section \<open>The Go string functions used by the backend\<close>

text \<open>
  A Go \<^verbatim>\<open>string\<close> is a sequence of bytes, and so is a HOL \<^typ>\<open>string\<close>.
  \<^verbatim>\<open>strings.Index\<close> returns the byte offset of the first occurrence of
  \<^verbatim>\<open>substr\<close>, or \<^verbatim>\<open>-1\<close>; the model returns \<open>None\<close> for \<^verbatim>\<open>-1\<close>.
\<close>

fun Index :: "string \<Rightarrow> string \<Rightarrow> nat option" where
  "Index [] substr = (if substr = [] then Some 0 else None)"
| "Index (c # s) substr =
     (if take (length substr) (c # s) = substr then Some 0
      else map_option Suc (Index s substr))"

definition Contains :: "string \<Rightarrow> string \<Rightarrow> bool" where
  "Contains s substr = (Index s substr \<noteq> None)"

definition HasPrefix :: "string \<Rightarrow> string \<Rightarrow> bool" where
  "HasPrefix s pre = (length pre \<le> length s \<and> take (length pre) s = pre)"

text \<open>
  \<^verbatim>\<open>strings.Split(s, sep)\<close> cuts \<^verbatim>\<open>s\<close> at every occurrence of \<^verbatim>\<open>sep\<close>, found from
  the left, each search starting behind the previous occurrence. With an empty separator
  Go splits after every UTF-8 sequence; the backend never passes one, and the model
  splits after every byte there.
\<close>

function Split :: "string \<Rightarrow> string \<Rightarrow> string list" where
  "Split s sep =
     (if sep = [] then map (\<lambda>c. [c]) s
      else case Index s sep of
             None \<Rightarrow> [s]
           | Some m \<Rightarrow> take m s # Split (drop (m + length sep) s) sep)"
  by pat_completeness auto
termination
proof (relation "measure (\<lambda>(s, sep). length s)")
  show "wf (measure (\<lambda>(s, sep). length s))" by simp
next
  fix s sep :: string and m :: nat
  assume "sep \<noteq> []" and "Index s sep = Some m"
  then have "s \<noteq> []" by (cases s) auto
  with \<open>sep \<noteq> []\<close> show "((drop (m + length sep) s, sep), (s, sep)) \<in> measure (\<lambda>(s, sep). length s)"
    by (cases sep) auto
qed

declare Split.simps [simp del]

fun Join :: "string list \<Rightarrow> string \<Rightarrow> string" where
  "Join [] sep = []"
| "Join [a] sep = a"
| "Join (a # b # elems) sep = a @ sep @ Join (b # elems) sep"

section \<open>Guess: from a matched specifier to a package name\<close>

text \<open>
  \<^verbatim>\<open>util.Die\<close> ends the command with a message; an index or a slice bound out of range
  panics. Both are results of the model.
\<close>

datatype error = Die string | Panic

text \<open>
  The body of the loop of \<^verbatim>\<open>Guess\<close> behind the join of the captures (lines 257 to 271;
  the specification calls it \<^emph>\<open>normalize\<close>). \<open>strip_loaders\<close> is the statement
  \<^verbatim>\<open>if strings.Contains(module, "!")\<close>, \<open>package_root\<close> the statement
  \<^verbatim>\<open>if strings.Contains(module, "/")\<close>; between them stands the test for a leading dot.
  The argument of \<open>normalizeSpecifier\<close> is the joined capture, \<open>Inr None\<close> is the
  \<^verbatim>\<open>continue\<close>, \<open>Inr (Some name)\<close> the name that is stored in \<^verbatim>\<open>pkgs\<close>.
  \<^verbatim>\<open>parts[len(parts)-1]\<close> and \<^verbatim>\<open>parts[0]\<close> panic on an empty slice, \<^verbatim>\<open>parts[:2]\<close> on a
  slice of capacity below two.
\<close>

definition strip_loaders :: "string \<Rightarrow> error + string" where
  "strip_loaders module =
     (if Contains module ''!'' then
        (let parts = Split module ''!'' in
         if parts = [] then Inl Panic else Inr (last parts))
      else Inr module)"

definition package_root :: "string \<Rightarrow> error + string" where
  "package_root module =
     (if Contains module ''/'' then
        (let parts = Split module ''/'' in
         if HasPrefix module ''@'' then
           (if length parts < 2 then Inl Panic else Inr (Join (take 2 parts) ''/''))
         else (case parts of [] \<Rightarrow> Inl Panic | p # _ \<Rightarrow> Inr p))
      else Inr module)"

definition normalizeSpecifier :: "string \<Rightarrow> error + string option" where
  "normalizeSpecifier raw =
     (case strip_loaders raw of
        Inl e \<Rightarrow> Inl e
      | Inr module \<Rightarrow>
          if HasPrefix module ''.'' then Inr None
          else (case package_root module of
                  Inl e \<Rightarrow> Inl e
                | Inr name \<Rightarrow> Inr (Some name)))"


section \<open>Regular expressions\<close>

text \<open>
  The patterns of the backend are values of \<open>re\<close>, read off the pattern strings: a
  literal, a character class, concatenation, alternation, the greedy and the lazy
  repetitions, a numbered capturing group, and the four anchors (\<open>Bol\<close> and \<open>Eol\<close> are
  \<^verbatim>\<open>^\<close> and \<^verbatim>\<open>$\<close> under the flag \<^verbatim>\<open>(?m)\<close>, \<open>BoT\<close> and \<open>EoT\<close> without it).

  Go matches a pattern against the UTF-8 sequences of the text, and takes a byte that
  begins no valid sequence as a sequence of its own. The literals and the members of the
  classes of the patterns are ASCII characters: a literal matches its byte, and a class
  takes a whole sequence and decides on its first byte (a sequence beyond ASCII is in
  \<^verbatim>\<open>.\<close> and in every negated class, and in no other class).
\<close>

datatype item = C char | Rng char char

fun item_match :: "item \<Rightarrow> char \<Rightarrow> bool" where
  "item_match (C a) x = (x = a)"
| "item_match (Rng a b) x =
     ((of_char a :: nat) \<le> of_char x \<and> (of_char x :: nat) \<le> of_char b)"

datatype cls = Dot | Pos "item list" | Neg "item list"

definition newline :: char where
  "newline = CHR 0x0A"

fun cls_match :: "cls \<Rightarrow> char \<Rightarrow> bool" where
  "cls_match Dot x = (x \<noteq> newline)"
| "cls_match (Pos its) x = list_ex (\<lambda>i. item_match i x) its"
| "cls_match (Neg its) x = (\<not> list_ex (\<lambda>i. item_match i x) its)"

datatype re =
    Eps
  | Chr char
  | Set cls
  | Cat re re
  | Alt re re
  | Star re
  | StarLazy re
  | Plus re
  | Opt re
  | OptLazy re
  | Grp nat re
  | Bol
  | Eol
  | BoT
  | EoT

fun seq :: "re list \<Rightarrow> re" where
  "seq [] = Eps"
| "seq [r] = r"
| "seq (r # rs) = Cat r (seq rs)"

definition str :: "string \<Rightarrow> re" where
  "str s = seq (map Chr s)"

text \<open>
  The width of the UTF-8 sequence at the head of a text, as \<^verbatim>\<open>utf8.DecodeRuneInString\<close>
  finds it: the first byte gives the size and the range of the second byte, the other
  bytes are continuation bytes; the width is one for an ASCII byte and for a byte that
  begins no valid sequence.
\<close>

definition cont :: "char \<Rightarrow> bool" where
  "cont c = (0x80 \<le> (of_char c :: nat) \<and> (of_char c :: nat) \<le> 0xBF)"

definition rune_width :: "string \<Rightarrow> nat" where
  "rune_width s =
     (case s of
        [] \<Rightarrow> 0
      | s0 # t \<Rightarrow>
          (let b = (of_char s0 :: nat);
               sz = (if b < 0xC2 then 1 else if b < 0xE0 then 2 else if b < 0xF0 then 3
                     else if b < 0xF5 then 4 else (1 :: nat));
               lo = (if b = 0xE0 then 0xA0 else if b = 0xF0 then 0x90 else (0x80 :: nat));
               hi = (if b = 0xED then 0x9F else if b = 0xF4 then 0x8F else (0xBF :: nat))
           in if sz = 1 \<or> length t < sz - 1 then 1
              else if \<not> (lo \<le> of_char (t ! 0) \<and> (of_char (t ! 0) :: nat) \<le> hi) then 1
              else if sz = 2 then 2
              else if \<not> cont (t ! 1) then 1
              else if sz = 3 then 3
              else if \<not> cont (t ! 2) then 1
              else 4))"

text \<open>
  The state of a match: the byte before the position (none at the start of the text),
  the text from the position on, and the captures made so far.
\<close>

record mstate =
  prev :: "char option"
  rest :: string
  caps :: "nat \<Rightarrow> string option"

text \<open>The state behind the sequence at the position.\<close>

definition step :: "mstate \<Rightarrow> mstate" where
  "step st =
     st\<lparr>prev := Some (last (take (rune_width (rest st)) (rest st))),
        rest := drop (rune_width (rest st)) (rest st)\<rparr>"

fun weight :: "re \<Rightarrow> nat" where
  "weight (Cat a b) = Suc (weight a + weight b)"
| "weight (Alt a b) = Suc (weight a + weight b)"
| "weight (Star r) = Suc (weight r)"
| "weight (StarLazy r) = Suc (weight r)"
| "weight (Plus r) = Suc (Suc (weight r))"
| "weight (Opt r) = Suc (weight r)"
| "weight (OptLazy r) = Suc (weight r)"
| "weight (Grp n r) = Suc (weight r)"
| "weight r = 0"

text \<open>
  \<open>ends r st\<close> lists the states in which a match of \<open>r\<close> begun in \<open>st\<close> can end, in the
  order in which Go's leftmost-first search prefers them: the left alternative before the
  right one, one more iteration before stopping (the reverse for a lazy operator). Its
  head is the match that Go reports. A repetition goes on only behind an iteration that
  has consumed input.
\<close>

function ends :: "re \<Rightarrow> mstate \<Rightarrow> mstate list" where
  "ends Eps st = [st]"
| "ends (Chr c) st =
     (case rest st of
        [] \<Rightarrow> []
      | x # xs \<Rightarrow> if x = c then [st\<lparr>prev := Some x, rest := xs\<rparr>] else [])"
| "ends (Set k) st =
     (case rest st of
        [] \<Rightarrow> []
      | x # xs \<Rightarrow> if cls_match k x then [step st] else [])"
| "ends (Cat a b) st = concat (map (ends b) (ends a st))"
| "ends (Alt a b) st = ends a st @ ends b st"
| "ends (Star r) st =
     concat (map (\<lambda>st'. if length (rest st') < length (rest st) then ends (Star r) st' else [])
                 (ends r st)) @ [st]"
| "ends (StarLazy r) st =
     st # concat (map (\<lambda>st'. if length (rest st') < length (rest st)
                              then ends (StarLazy r) st' else [])
                      (ends r st))"
| "ends (Plus r) st = concat (map (ends (Star r)) (ends r st))"
| "ends (Opt r) st = ends r st @ [st]"
| "ends (OptLazy r) st = st # ends r st"
| "ends (Grp n r) st =
     map (\<lambda>st'. st'\<lparr>caps := (caps st')
                   (n \<mapsto> take (length (rest st) - length (rest st')) (rest st))\<rparr>)
         (ends r st)"
| "ends Bol st = (if prev st = None \<or> prev st = Some newline then [st] else [])"
| "ends Eol st = (case rest st of [] \<Rightarrow> [st] | x # xs \<Rightarrow> if x = newline then [st] else [])"
| "ends BoT st = (if prev st = None then [st] else [])"
| "ends EoT st = (if rest st = [] then [st] else [])"
  by pat_completeness auto
termination
  by (relation "measures [\<lambda>(r, st). weight r, \<lambda>(r, st). length (rest st)]") auto

declare ends.simps [simp del]

fun ngroups :: "re \<Rightarrow> nat" where
  "ngroups (Cat a b) = max (ngroups a) (ngroups b)"
| "ngroups (Alt a b) = max (ngroups a) (ngroups b)"
| "ngroups (Star r) = ngroups r"
| "ngroups (StarLazy r) = ngroups r"
| "ngroups (Plus r) = ngroups r"
| "ngroups (Opt r) = ngroups r"
| "ngroups (OptLazy r) = ngroups r"
| "ngroups (Grp n r) = max n (ngroups r)"
| "ngroups r = 0"

definition exec_at :: "re \<Rightarrow> char option \<Rightarrow> string \<Rightarrow> mstate option" where
  "exec_at r p s =
     (case ends r \<lparr>prev = p, rest = s, caps = (\<lambda>_. None)\<rparr> of
        [] \<Rightarrow> None
      | st # _ \<Rightarrow> Some st)"

text \<open>
  A match as Go returns it: the matched text, then the text of each group, empty for a
  group that took no part.
\<close>

definition submatch :: "re \<Rightarrow> string \<Rightarrow> mstate \<Rightarrow> string list" where
  "submatch r s st =
     take (length s - length (rest st)) s #
     map (\<lambda>i. case caps st i of None \<Rightarrow> [] | Some g \<Rightarrow> g) [1 ..< Suc (ngroups r)]"

text \<open>
  The search for the leftmost match: at the position, or else from the next sequence on.
\<close>

function leftmost :: "re \<Rightarrow> char option \<Rightarrow> string \<Rightarrow> (string list \<times> mstate) option" where
  "leftmost r p s =
     (case exec_at r p s of
        Some st \<Rightarrow> Some (submatch r s st, st)
      | None \<Rightarrow>
          if s = [] then None
          else leftmost r (Some (last (take (rune_width s) s))) (drop (rune_width s) s))"
  by pat_completeness auto
termination
proof (relation "measure (\<lambda>(r, p, s). length s)")
  show "wf (measure (\<lambda>(r, p, s). length s))" by simp
next
  fix r :: re and p :: "char option" and s :: string
  assume "s \<noteq> []"
  moreover from this have "0 < rune_width s"
    by (cases s) (simp_all add: rune_width_def Let_def)
  ultimately show "((r, Some (last (take (rune_width s) s)), drop (rune_width s) s), (r, p, s))
      \<in> measure (\<lambda>(r, p, s). length s)"
    by simp
qed

declare leftmost.simps [simp del]

definition FindStringSubmatch :: "re \<Rightarrow> string \<Rightarrow> string list option" where
  "FindStringSubmatch r s = map_option fst (leftmost r None s)"

text \<open>
  The loop of \<^verbatim>\<open>FindAllStringSubmatch(s, -1)\<close>: the next search starts where the last
  match ended. \<open>afterMatch\<close> says that a match ended at the search position; an empty
  match there is dropped, and behind an empty match at the search position the search
  moves on by one sequence.
\<close>

function allMatches :: "re \<Rightarrow> bool \<Rightarrow> char option \<Rightarrow> string \<Rightarrow> string list list" where
  "allMatches r afterMatch p s =
     (case leftmost r p s of
        None \<Rightarrow> []
      | Some (m, st) \<Rightarrow>
          if length (rest st) < length s then m # allMatches r True (prev st) (rest st)
          else (if afterMatch then [] else [m]) @
               (if s = [] then []
                else allMatches r False (Some (last (take (rune_width s) s)))
                       (drop (rune_width s) s)))"
  by pat_completeness auto
termination
proof (relation "measure (\<lambda>(r, a, p, s). length s)")
  show "wf (measure (\<lambda>(r, a, p, s). length s))" by simp
next
  fix r :: re and afterMatch :: bool and p :: "char option" and s :: string
    and x2 :: "string list \<times> mstate" and m :: "string list" and st :: mstate
  assume "length (rest st) < length s"
  then show "((r, True, prev st, rest st), (r, afterMatch, p, s)) \<in> measure (\<lambda>(r, a, p, s). length s)"
    by simp
next
  fix r :: re and afterMatch :: bool and p :: "char option" and s :: string
  assume "s \<noteq> []"
  moreover from this have "0 < rune_width s"
    by (cases s) (simp_all add: rune_width_def Let_def)
  ultimately show "((r, False, Some (last (take (rune_width s) s)), drop (rune_width s) s),
      (r, afterMatch, p, s)) \<in> measure (\<lambda>(r, a, p, s). length s)"
    by simp
qed

declare allMatches.simps [simp del]

definition FindAllStringSubmatch :: "re \<Rightarrow> string \<Rightarrow> string list list" where
  "FindAllStringSubmatch r s = allMatches r False None s"


section \<open>The backend\<close>

subsection \<open>ListLockfile\<close>

text \<open>
  The pattern \<^verbatim>\<open>(?m)^"?([^@ \n]+).+:\n  version "(.+)"$\<close> of \<^verbatim>\<open>ListLockfile\<close> (line 222).
\<close>

definition lockfile_re :: re where
  \<open>lockfile_re =
     seq [Bol, Opt (Chr (CHR ''"'')),
          Grp 1 (Plus (Set (Neg [C (CHR ''@''), C (CHR '' ''), C newline]))),
          Plus (Set Dot), Chr (CHR '':''), Chr newline, str ''  version "'',
          Grp 2 (Plus (Set Dot)), Chr (CHR ''"''), Eol]\<close>

text \<open>
  The loop over the matches; \<^verbatim>\<open>match[1]\<close> and \<^verbatim>\<open>match[2]\<close> panic on a match with
  fewer than three entries.
\<close>

fun ListLockfile_loop ::
  "(string \<rightharpoonup> string) \<Rightarrow> string list list \<Rightarrow> error + (string \<rightharpoonup> string)" where
  "ListLockfile_loop pkgs [] = Inr pkgs"
| "ListLockfile_loop pkgs (match # matches) =
     (case match of
        _ # name # version # _ \<Rightarrow> ListLockfile_loop (pkgs(name \<mapsto> version)) matches
      | _ \<Rightarrow> Inl Panic)"

text \<open>
  The argument is what \<^verbatim>\<open>ioutil.ReadFile("yarn.lock")\<close> returns: the error's message
  or the contents.
\<close>

definition ListLockfile :: "string + string \<Rightarrow> error + (string \<rightharpoonup> string)" where
  "ListLockfile readFile =
     (case readFile of
        Inl err \<Rightarrow> Inl (Die (''yarn.lock: '' @ err))
      | Inr contents \<Rightarrow>
          ListLockfile_loop Map.empty (FindAllStringSubmatch lockfile_re contents))"

subsection \<open>ListSpecfile\<close>

text \<open>
  The decoded \<^verbatim>\<open>package.json\<close>. A Go map is ranged over in an order that the language
  leaves open: each group is the list of its entries in the order of the iteration, with
  no key twice.
\<close>

record packageJSON =
  Dependencies :: "(string \<times> string) list"
  DevDependencies :: "(string \<times> string) list"

fun range_assign :: "(string \<rightharpoonup> string) \<Rightarrow> (string \<times> string) list \<Rightarrow> (string \<rightharpoonup> string)" where
  "range_assign pkgs [] = pkgs"
| "range_assign pkgs ((nameStr, specStr) # entries) =
     range_assign (pkgs(nameStr \<mapsto> specStr)) entries"

text \<open>
  \<open>Unmarshal\<close> stands for \<^verbatim>\<open>json.Unmarshal\<close> into a \<^verbatim>\<open>packageJSON\<close> (the error's message,
  or the decoded value); the second argument is what \<^verbatim>\<open>ioutil.ReadFile("package.json")\<close>
  returns.
\<close>

definition ListSpecfile ::
  "(string \<Rightarrow> string + packageJSON) \<Rightarrow> string + string \<Rightarrow> error + (string \<rightharpoonup> string)" where
  "ListSpecfile Unmarshal readFile =
     (case readFile of
        Inl err \<Rightarrow> Inl (Die (''package.json: '' @ err))
      | Inr contentsB \<Rightarrow>
          (case Unmarshal contentsB of
             Inl err \<Rightarrow> Inl (Die (''package.json: '' @ err))
           | Inr cfg \<Rightarrow>
               Inr (range_assign (range_assign Map.empty (Dependencies cfg))
                                 (DevDependencies cfg))))"

subsection \<open>Guess\<close>

definition nodejsPatterns :: "string list" where
  "nodejsPatterns = [''*.js'', ''*.ts'', ''*.jsx'', ''*.tsx'']"

text \<open>
  The three patterns of \<^verbatim>\<open>Guess\<close> (lines 243, 245 and 248), joined with \<^verbatim>\<open>|\<close>:
  \<^verbatim>\<open>(?m)from\s*['"]([^'"]+)['"]\s*;?\s*$\<close>, \<^verbatim>\<open>(?m)import\s*['"]([^'"]+)['"]\s*;?\s*$\<close>
  and \<^verbatim>\<open>(?m)(?:require|import)\s*\(\s*['"]([^'"{}]+)['"]\s*\)\<close>. \<^verbatim>\<open>\s\<close> is
  \<^verbatim>\<open>[\t\n\f\r ]\<close>; the quotes are the bytes 27 and 22, the braces 7B and 7D
  (hexadecimal).
\<close>

definition ws :: cls where
  "ws = Pos [C (CHR 0x09), C newline, C (CHR 0x0C), C (CHR 0x0D), C (CHR '' '')]"

definition quote :: cls where
  "quote = Pos [C (CHR 0x27), C (CHR 0x22)]"

definition guess_re :: re where
  "guess_re =
     Alt (seq [str ''from'', Star (Set ws), Set quote,
               Grp 1 (Plus (Set (Neg [C (CHR 0x27), C (CHR 0x22)]))),
               Set quote, Star (Set ws), Opt (Chr (CHR '';'')), Star (Set ws), Eol])
    (Alt (seq [str ''import'', Star (Set ws), Set quote,
               Grp 2 (Plus (Set (Neg [C (CHR 0x27), C (CHR 0x22)]))),
               Set quote, Star (Set ws), Opt (Chr (CHR '';'')), Star (Set ws), Eol])
         (seq [Alt (str ''require'') (str ''import''), Star (Set ws), Chr (CHR ''(''),
               Star (Set ws), Set quote,
               Grp 3 (Plus (Set (Neg [C (CHR 0x27), C (CHR 0x22), C (CHR 0x7B), C (CHR 0x7D)]))),
               Set quote, Star (Set ws), Chr (CHR '')'')]))"

text \<open>
  Modelled from the spec: \<^verbatim>\<open>util.SearchRecursive\<close>, which is not among the sources. The
  source tree is the sequence of its files (path and text) in the order of the traversal;
  the files whose name matches one of the glob patterns are searched, and the matches
  follow the order of the files, then the order within a file. \<open>Match\<close> is the glob
  match on a file name, for patterns of literal characters and \<^verbatim>\<open>*\<close>.
\<close>

fun Match :: "string \<Rightarrow> string \<Rightarrow> bool" where
  "Match [] name = (name = [])"
| "Match (p # ps) name =
     (if p = CHR ''*'' then list_ex (\<lambda>k. Match ps (drop k name)) [0 ..< Suc (length name)]
      else (case name of [] \<Rightarrow> False | x # xs \<Rightarrow> x = p \<and> Match ps xs))"

definition Base :: "string \<Rightarrow> string" where
  "Base path = rev (takeWhile (\<lambda>x. x \<noteq> CHR ''/'') (rev path))"

definition SearchRecursive ::
  "re \<Rightarrow> string list \<Rightarrow> (string \<times> string) list \<Rightarrow> string list list" where
  "SearchRecursive r patterns files =
     concat (map (\<lambda>(path, contents). FindAllStringSubmatch r contents)
                 (filter (\<lambda>(path, contents). list_ex (\<lambda>pattern. Match pattern (Base path)) patterns)
                         files))"

text \<open>
  The first loop of \<^verbatim>\<open>Guess\<close>. \<^verbatim>\<open>match[1:]\<close> panics on an empty match; the captures are
  joined and normalised, and the name is stored with the value \<^verbatim>\<open>true\<close>.
\<close>

fun Guess_loop ::
  "(string \<rightharpoonup> bool) \<Rightarrow> string list list \<Rightarrow> error + (string \<rightharpoonup> bool)" where
  "Guess_loop pkgs [] = Inr pkgs"
| "Guess_loop pkgs (match # matches) =
     (if match = [] then Inl Panic
      else (case normalizeSpecifier (Join (drop 1 match) '''') of
              Inl e \<Rightarrow> Inl e
            | Inr None \<Rightarrow> Guess_loop pkgs matches
            | Inr (Some module) \<Rightarrow> Guess_loop (pkgs(module \<mapsto> True)) matches))"

text \<open>
  The scanner over the output of the \<^verbatim>\<open>node\<close> process: the lines that \<^verbatim>\<open>Scan\<close> and
  \<^verbatim>\<open>Text\<close> yield, and what \<^verbatim>\<open>Err\<close> returns behind them.
\<close>

record scanner =
  lines :: "string list"
  err :: "string option"

fun delete_loop :: "(string \<rightharpoonup> bool) \<Rightarrow> string list \<Rightarrow> (string \<rightharpoonup> bool)" where
  "delete_loop pkgs [] = pkgs"
| "delete_loop pkgs (module # modules) = delete_loop (pkgs(module := None)) modules"

text \<open>
  \<^verbatim>\<open>Guess\<close> over a source tree. The second argument is the outcome of
  \<^verbatim>\<open>util.GetCmdOutput\<close>: the error with which it ended the command, or the scanner over
  the output.
\<close>

definition Guess :: "(string \<times> string) list \<Rightarrow> error + scanner \<Rightarrow> error + (string \<rightharpoonup> bool)" where
  "Guess files node =
     (case Guess_loop Map.empty (SearchRecursive guess_re nodejsPatterns files) of
        Inl e \<Rightarrow> Inl e
      | Inr pkgs \<Rightarrow>
          (case node of
             Inl e \<Rightarrow> Inl e
           | Inr sc \<Rightarrow>
               (let pkgs' = delete_loop pkgs (lines sc) in
                case err sc of
                  Some e \<Rightarrow> Inl (Die (''node: '' @ e))
                | None \<Rightarrow> Inr pkgs')))"


subsection \<open>Info: the latest version\<close>

text \<open>
  \<^verbatim>\<open>Info\<close> uses four operations of the package \<^verbatim>\<open>github.com/hashicorp/go-version\<close>,
  which is not part of the repository. The selection is written over any such package;
  \<open>NewVersion\<close> returns \<open>None\<close> for an error.
\<close>

record 'v version_package =
  NewVersion :: "string \<Rightarrow> 'v option"
  Prerelease :: "'v \<Rightarrow> string"
  GreaterThan :: "'v \<Rightarrow> 'v \<Rightarrow> bool"
  String :: "'v \<Rightarrow> string"

text \<open>
  The loop over \<^verbatim>\<open>npmInfo.Versions\<close> (lines 143 to 157), a Go map: the labels are its keys
  in the order in which the iteration visits them. \<open>lastVersion\<close> is \<open>None\<close> for
  \<^verbatim>\<open>nil\<close>. \<open>lastVersionStr\<close> is the variable of that name behind line 161.
\<close>

fun lastVersion_loop :: "'v version_package \<Rightarrow> 'v option \<Rightarrow> string list \<Rightarrow> 'v option" where
  "lastVersion_loop V lastVersion [] = lastVersion"
| "lastVersion_loop V lastVersion (versionStr # versions) =
     (case NewVersion V versionStr of
        None \<Rightarrow> lastVersion_loop V lastVersion versions
      | Some version \<Rightarrow>
          if Prerelease V version \<noteq> '''' then lastVersion_loop V lastVersion versions
          else if (case lastVersion of None \<Rightarrow> True | Some l \<Rightarrow> GreaterThan V version l)
               then lastVersion_loop V (Some version) versions
               else lastVersion_loop V lastVersion versions)"

definition lastVersionStr :: "'v version_package \<Rightarrow> string list \<Rightarrow> string" where
  "lastVersionStr V versions =
     (if length versions > 0 then
        (case lastVersion_loop V None versions of
           None \<Rightarrow> ''''
         | Some lastVersion \<Rightarrow> String V lastVersion)
      else '''')"

subsection \<open>The version package\<close>

text \<open>
  The package as \<^verbatim>\<open>Info\<close> uses it. A version is parsed with the regular expression
  \<^verbatim>\<open>^v?([0-9]+(\.[0-9]+)*?)(-([0-9]+[0-9A-Za-z\-~]*(\.[0-9A-Za-z\-~]+)*)|(-?([A-Za-z\-~]+[0-9A-Za-z\-~]*(\.[0-9A-Za-z\-~]+)*)))?(\+([0-9A-Za-z\-~]+(\.[0-9A-Za-z\-~]+)*))??$\<close>;
  its numeric segments are filled up with zeros to three; group 7, or else group 4, is
  the prerelease and group 10 the metadata.
\<close>

definition digit :: cls where
  "digit = Pos [Rng (CHR ''0'') (CHR ''9'')]"

definition word :: cls where
  "word = Pos [Rng (CHR ''0'') (CHR ''9''), Rng (CHR ''A'') (CHR ''Z''),
               Rng (CHR ''a'') (CHR ''z''), C (CHR ''-''), C (CHR ''~'')]"

definition alpha :: cls where
  "alpha = Pos [Rng (CHR ''A'') (CHR ''Z''), Rng (CHR ''a'') (CHR ''z''),
                C (CHR ''-''), C (CHR ''~'')]"

definition versionRegexp :: re where
  "versionRegexp =
     seq [BoT, Opt (Chr (CHR ''v'')),
          Grp 1 (Cat (Plus (Set digit))
                     (StarLazy (Grp 2 (Cat (Chr (CHR ''.'')) (Plus (Set digit)))))),
          Opt (Grp 3
            (Alt (Cat (Chr (CHR ''-''))
                      (Grp 4 (seq [Plus (Set digit), Star (Set word),
                                   Star (Grp 5 (Cat (Chr (CHR ''.'')) (Plus (Set word))))])))
                 (Grp 6 (Cat (Opt (Chr (CHR ''-'')))
                      (Grp 7 (seq [Plus (Set alpha), Star (Set word),
                                   Star (Grp 8 (Cat (Chr (CHR ''.'')) (Plus (Set word))))])))))),
          OptLazy (Grp 9 (Cat (Chr (CHR ''+''))
                      (Grp 10 (Cat (Plus (Set word))
                                   (Star (Grp 11 (Cat (Chr (CHR ''.'')) (Plus (Set word))))))))),
          EoT]"

record Version =
  metadata :: string
  pre :: string
  segments :: "int list"
  si :: nat
  original :: string

text \<open>
  \<^verbatim>\<open>strconv.ParseInt(s, 10, 64)\<close> on the digit strings that the regular expression lets
  through: an error beyond the largest 64-bit integer. \<^verbatim>\<open>strconv.FormatInt(s, 10)\<close> is
  the decimal numeral.
\<close>

definition ParseInt :: "string \<Rightarrow> int option" where
  "ParseInt s =
     (if s \<noteq> [] \<and> list_all (cls_match digit) s then
        (let val = foldl (\<lambda>a c. 10 * a + (int (of_char c) - 48)) 0 s in
         if val < 2 ^ 63 then Some val else None)
      else None)"

fun decimal :: "nat \<Rightarrow> string" where
  "decimal n =
     (if n < 10 then [char_of (48 + n)]
      else decimal (n div 10) @ [char_of (48 + n mod 10)])"

declare decimal.simps [simp del]

definition FormatInt :: "int \<Rightarrow> string" where
  "FormatInt i = (if i < 0 then CHR ''-'' # decimal (nat (- i)) else decimal (nat i))"

definition go_NewVersion :: "string \<Rightarrow> Version option" where
  "go_NewVersion v =
     (case FindStringSubmatch versionRegexp v of
        None \<Rightarrow> None
      | Some matches \<Rightarrow>
          (let segmentsStr = Split (matches ! 1) ''.'' in
           case those (map ParseInt segmentsStr) of
             None \<Rightarrow> None
           | Some segs \<Rightarrow>
               Some \<lparr>metadata = matches ! 10,
                     pre = (if matches ! 7 = '''' then matches ! 4 else matches ! 7),
                     segments = segs @ replicate (3 - length segs) 0,
                     si = length segmentsStr,
                     original = v\<rparr>))"

definition go_String :: "Version \<Rightarrow> string" where
  "go_String v =
     Join (map FormatInt (segments v)) ''.'' @
     (if pre v \<noteq> '''' then CHR ''-'' # pre v else '''') @
     (if metadata v \<noteq> '''' then CHR ''+'' # metadata v else '''')"

text \<open>
  \<^verbatim>\<open>Compare\<close>: equal renderings are equal versions; on equal segments a version without
  a prerelease is the greater one; other versions compare by their segments, the shorter
  list counting as filled up with zeros. The order of two prereleases on equal segments,
  \<open>comparePrereleases\<close>, is left as an argument: \<^verbatim>\<open>Info\<close> compares no versions with a
  prerelease.
\<close>

fun compareSegments :: "int list \<Rightarrow> int list \<Rightarrow> int" where
  "compareSegments [] [] = 0"
| "compareSegments [] (r # rs) = (if list_all (\<lambda>s. s = 0) (r # rs) then 0 else - 1)"
| "compareSegments (l # ls) [] = (if list_all (\<lambda>s. s = 0) (l # ls) then 0 else 1)"
| "compareSegments (l # ls) (r # rs) =
     (if l = r then compareSegments ls rs else if l < r then - 1 else 1)"

definition Compare :: "(string \<Rightarrow> string \<Rightarrow> int) \<Rightarrow> Version \<Rightarrow> Version \<Rightarrow> int" where
  "Compare comparePrereleases v other =
     (if go_String v = go_String other then 0
      else if segments v = segments other then
        (if pre v = '''' \<and> pre other = '''' then 0
         else if pre v = '''' then 1
         else if pre other = '''' then - 1
         else comparePrereleases (pre v) (pre other))
      else compareSegments (segments v) (segments other))"

definition go_version :: "(string \<Rightarrow> string \<Rightarrow> int) \<Rightarrow> Version version_package" where
  "go_version comparePrereleases =
     \<lparr>NewVersion = go_NewVersion,
      Prerelease = pre,
      GreaterThan = (\<lambda>v other. Compare comparePrereleases v other > 0),
      String = go_String\<rparr>"

text \<open>
  An order of prereleases for the examples. The result of the selection is the same for
  every such order.
\<close>

definition no_order :: "string \<Rightarrow> string \<Rightarrow> int" where
  "no_order v other = 0"


section \<open>Terms of the specification\<close>

text \<open>
  What is left of a specifier behind its last \<^verbatim>\<open>!\<close> (all of it when it has none), and
  its \<open>n\<close>-th segment between \<^verbatim>\<open>/\<close>, counted from zero. Both are written without the
  functions of the backend.
\<close>

definition remainder :: "string \<Rightarrow> string" where
  "remainder raw = rev (takeWhile (\<lambda>x. x \<noteq> CHR ''!'') (rev raw))"

fun segment :: "nat \<Rightarrow> string \<Rightarrow> string" where
  "segment 0 s = takeWhile (\<lambda>x. x \<noteq> CHR ''/'') s"
| "segment (Suc n) s = segment n (drop 1 (dropWhile (\<lambda>x. x \<noteq> CHR ''/'') s))"


section \<open>Properties of patterns\<close>

text \<open>
  \<open>only P r\<close>: every byte that \<open>r\<close> can consume satisfies \<open>P\<close> (a class consumes a
  byte that it accepts and, behind it, bytes beyond ASCII). \<open>group_only P n r\<close>:
  every group numbered \<open>n\<close> in \<open>r\<close> has a body that consumes such bytes only.
\<close>

fun only :: "(char \<Rightarrow> bool) \<Rightarrow> re \<Rightarrow> bool" where
  "only P (Chr c) = P c"
| "only P (Set k) = (\<forall>x. cls_match k x \<or> 0x80 \<le> (of_char x :: nat) \<longrightarrow> P x)"
| "only P (Cat a b) = (only P a \<and> only P b)"
| "only P (Alt a b) = (only P a \<and> only P b)"
| "only P (Star r) = only P r"
| "only P (StarLazy r) = only P r"
| "only P (Plus r) = only P r"
| "only P (Opt r) = only P r"
| "only P (OptLazy r) = only P r"
| "only P (Grp n r) = only P r"
| "only P r = True"

fun group_only :: "(char \<Rightarrow> bool) \<Rightarrow> nat \<Rightarrow> re \<Rightarrow> bool" where
  "group_only P n (Cat a b) = (group_only P n a \<and> group_only P n b)"
| "group_only P n (Alt a b) = (group_only P n a \<and> group_only P n b)"
| "group_only P n (Star r) = group_only P n r"
| "group_only P n (StarLazy r) = group_only P n r"
| "group_only P n (Plus r) = group_only P n r"
| "group_only P n (Opt r) = group_only P n r"
| "group_only P n (OptLazy r) = group_only P n r"
| "group_only P n (Grp m r) = (if m = n then only P r else group_only P n r)"
| "group_only P n r = True"

text \<open>
  The text consumed between two states of a match, and: a capture of group \<open>n\<close>, if
  there is one, has bytes of \<open>P\<close> only.
\<close>

definition consumed :: "mstate \<Rightarrow> mstate \<Rightarrow> string" where
  "consumed st st' = take (length (rest st) - length (rest st')) (rest st)"

definition cap_ok :: "(char \<Rightarrow> bool) \<Rightarrow> nat \<Rightarrow> mstate \<Rightarrow> bool" where
  "cap_ok P n st = (case caps st n of None \<Rightarrow> True | Some g \<Rightarrow> list_all P g)"

text \<open>
  The candidates of the version selection: the versions of the labels that parse and
  carry no prerelease, in the order of the labels.
\<close>

fun candidates :: "'v version_package \<Rightarrow> string list \<Rightarrow> 'v list" where
  "candidates V [] = []"
| "candidates V (versionStr # versions) =
     (case NewVersion V versionStr of
        None \<Rightarrow> candidates V versions
      | Some version \<Rightarrow>
          if Prerelease V version \<noteq> '''' then candidates V versions
          else version # candidates V versions)"

definition is_candidate :: "'v version_package \<Rightarrow> string \<Rightarrow> bool" where
  "is_candidate V versionStr =
     (case NewVersion V versionStr of
        None \<Rightarrow> False
      | Some version \<Rightarrow> Prerelease V version = '''')"

text \<open>
  \<open>strict_on gt T\<close>: on the set \<open>T\<close>, \<open>gt\<close> is irreflexive and transitive.
\<close>

definition strict_on :: "('v \<Rightarrow> 'v \<Rightarrow> bool) \<Rightarrow> 'v set \<Rightarrow> bool" where
  "strict_on gt T =
     ((\<forall>a\<in>T. \<not> gt a a) \<and> (\<forall>a\<in>T. \<forall>b\<in>T. \<forall>c\<in>T. gt a b \<longrightarrow> gt b c \<longrightarrow> gt a c))"

section \<open>Example inputs\<close>

text \<open>The lock file and the source file of the specification's examples.\<close>

definition lock_example :: string where
  \<open>lock_example =
     ''"left-pad@^1.0.0":'' @ [newline] @ ''  version "1.3.0"'' @ [newline, newline] @
     ''"right-pad@^1.0.0", "right-pad@^1.1.0":'' @ [newline] @ ''  version "1.1.0"''\<close>

definition source_example :: string where
  \<open>source_example =
     ''import React from "react";'' @ [newline] @
     ''require("./utils")'' @ [newline] @
     ''import("lodash/debounce")''\<close>

text \<open>
  A lock file with two blocks for one name, one with a block for a scoped package, and a
  source file that requires a built-in module and packages named after one.
\<close>

definition lock_twice :: string where
  \<open>lock_twice =
     ''left-pad@^1.0.0:'' @ [newline] @ ''  version "1.3.0"'' @ [newline, newline] @
     ''left-pad@^2.0.0:'' @ [newline] @ ''  version "2.0.0"''\<close>

definition lock_scoped :: string where
  \<open>lock_scoped = ''"@scope/pkg@^1.0.0":'' @ [newline] @ ''  version "1.0.0"''\<close>

definition source_builtins :: string where
  \<open>source_builtins =
     ''const fs = require("fs");'' @ [newline] @
     ''const extra = require("fs-extra");'' @ [newline] @
     ''import posix from "@types/path";''\<close>

section \<open>Splitting at a byte\<close>


lemma Index_char_None: "Index s [c] = None \<longleftrightarrow> c \<notin> set s"
  by (induction s) auto

lemma Index_char_Some: "c \<in> set s \<Longrightarrow> Index s [c] = Some (length (takeWhile (\<lambda>x. x \<noteq> c) s))"
  by (induction s) auto

lemma Contains_char: "Contains s [c] \<longleftrightarrow> c \<in> set s"
  by (simp add: Contains_def Index_char_None)

lemma HasPrefix_char: "HasPrefix s [c] \<longleftrightarrow> (\<exists>t. s = c # t)"
  by (cases s) (auto simp: HasPrefix_def)

lemma Split_char_notin: "c \<notin> set s \<Longrightarrow> Split s [c] = [s]"
  by (subst Split.simps) (simp add: Index_char_None [THEN iffD2])

lemma drop_Suc_takeWhile: "c \<in> set s \<Longrightarrow> drop (Suc (length (takeWhile (\<lambda>x. x \<noteq> c) s))) s = tl (dropWhile (\<lambda>x. x \<noteq> c) s)"
  by (induction s) auto

lemma Split_char_in:
  "c \<in> set s \<Longrightarrow>
   Split s [c] = takeWhile (\<lambda>x. x \<noteq> c) s # Split (tl (dropWhile (\<lambda>x. x \<noteq> c) s)) [c]"
  by (subst Split.simps) (simp add: Index_char_Some drop_Suc_takeWhile takeWhile_eq_take [symmetric])

lemma Split_nonempty: "Split s [c] \<noteq> []"
  by (subst Split.simps) (simp split: option.split)

lemma Split_append_char:
  "c \<notin> set q \<Longrightarrow> Split (p @ c # q) [c] = Split p [c] @ [q]"
proof (induction p "[c]" rule: Split.induct)
  case (1 s)
  show ?case
  proof (cases "c \<in> set s")
    case True
    then have "tl (dropWhile (\<lambda>x. x \<noteq> c) (s @ c # q)) = tl (dropWhile (\<lambda>x. x \<noteq> c) s) @ c # q"
      by (induction s) auto
    moreover have "takeWhile (\<lambda>x. x \<noteq> c) (s @ c # q) = takeWhile (\<lambda>x. x \<noteq> c) s"
      using True by (induction s) auto
    moreover have "Split (drop (length (takeWhile (\<lambda>x. x \<noteq> c) s) + length [c]) s @ c # q) [c]
        = Split (drop (length (takeWhile (\<lambda>x. x \<noteq> c) s) + length [c]) s) [c] @ [q]"
      using 1(1) [OF _ Index_char_Some [OF True]] 1(2) by simp
    ultimately show ?thesis
      using True by (simp add: Split_char_in [of c "s @ c # q"] Split_char_in [of c s] drop_Suc_takeWhile)
  next
    case False
    then have "takeWhile (\<lambda>x. x \<noteq> c) (s @ c # q) = s" "tl (dropWhile (\<lambda>x. x \<noteq> c) (s @ c # q)) = q"
      by (induction s) auto
    then show ?thesis
      using False 1(2) by (simp add: Split_char_in [of c "s @ c # q"] Split_char_notin)
  qed
qed

lemma last_Split_append: "c \<notin> set q \<Longrightarrow> last (Split (p @ c # q) [c]) = q"
  by (simp add: Split_append_char)

lemma after_last_append:
  "c \<notin> set q \<Longrightarrow> rev (takeWhile (\<lambda>x. x \<noteq> c) (rev (p @ c # q))) = q"
proof -
  assume q: "c \<notin> set q"
  have "takeWhile (\<lambda>x. x \<noteq> c) (rev q @ (c # rev p)) = rev q"
    using q by (induction q rule: rev_induct) auto
  then show ?thesis by simp
qed

lemma after_last_notin: "c \<notin> set s \<Longrightarrow> rev (takeWhile (\<lambda>x. x \<noteq> c) (rev s)) = s"
  by (subst rev_swap) (auto simp add: takeWhile_eq_all_conv)

lemma split_last_char: "c \<in> set s \<Longrightarrow> \<exists>p q. s = p @ c # q \<and> c \<notin> set q"
  by (drule split_list_last) simp

lemma strip_loaders_remainder: "strip_loaders s = Inr (remainder s)"
proof (cases "CHR ''!'' \<in> set s")
  case True
  from split_last_char [OF True]
  obtain p q where s: "s = p @ CHR ''!'' # q" and q: "CHR ''!'' \<notin> set q"
    by (elim exE conjE)
  have "strip_loaders s = Inr (last (Split s ''!''))"
    using True by (simp add: strip_loaders_def Contains_char Let_def Split_nonempty)
  also have "last (Split s ''!'') = q"
    using q by (simp add: s last_Split_append)
  also have "q = remainder s"
    using after_last_append [OF q, of p] by (simp only: s remainder_def)
  finally show ?thesis .
next
  case False
  then show ?thesis
    by (simp add: strip_loaders_def Contains_char after_last_notin remainder_def)
qed

lemma remainder_append: "CHR ''!'' \<notin> set q \<Longrightarrow> remainder (p @ ''!'' @ q) = q"
  using after_last_append [of "CHR ''!''" q p] by (simp add: remainder_def)

lemma remainder_no_bang: "CHR ''!'' \<notin> set s \<Longrightarrow> remainder s = s"
  by (simp add: remainder_def after_last_notin)

lemma set_remainder: "set (remainder s) \<subseteq> set s"
  unfolding remainder_def using set_takeWhileD [of _ "\<lambda>x. x \<noteq> CHR ''!''" "rev s"] by auto

lemma remainder_free: "CHR ''!'' \<notin> set (remainder s)"
  unfolding remainder_def using set_takeWhileD [of "CHR ''!''" "\<lambda>x. x \<noteq> CHR ''!''" "rev s"] by auto

lemma takeWhile_notin: "c \<notin> set s \<Longrightarrow> takeWhile (\<lambda>x. x \<noteq> c) s = s"
  by (induction s) auto

lemma hd_Split: "\<exists>ps. Split s [c] = takeWhile (\<lambda>x. x \<noteq> c) s # ps"
proof (cases "c \<in> set s")
  case True
  then show ?thesis by (simp add: Split_char_in [of c s])
next
  case False
  then show ?thesis by (simp add: Split_char_notin takeWhile_notin)
qed

lemma Split_two:
  assumes "c \<in> set s"
  shows "\<exists>ps. Split s [c] =
    takeWhile (\<lambda>x. x \<noteq> c) s # takeWhile (\<lambda>x. x \<noteq> c) (tl (dropWhile (\<lambda>x. x \<noteq> c) s)) # ps"
proof -
  obtain ps where "Split (tl (dropWhile (\<lambda>x. x \<noteq> c) s)) [c] =
      takeWhile (\<lambda>x. x \<noteq> c) (tl (dropWhile (\<lambda>x. x \<noteq> c) s)) # ps"
    using hd_Split [of "tl (dropWhile (\<lambda>x. x \<noteq> c) s)" c] by (elim exE)
  with assms show ?thesis by (simp add: Split_char_in [of c s])
qed

lemma package_root_eq:
  "package_root m =
     Inr (if CHR ''/'' \<in> set m
          then (if HasPrefix m ''@'' then segment 0 m @ ''/'' @ segment 1 m else segment 0 m)
          else m)"
proof (cases "CHR ''/'' \<in> set m")
  case True
  from Split_two [OF True] obtain ps where
    ps: "Split m ''/'' = segment 0 m # segment 1 m # ps"
    by (auto simp: drop_Suc)
  show ?thesis
    using True by (simp add: package_root_def Contains_char Let_def ps)
next
  case False
  then show ?thesis by (simp add: package_root_def Contains_char)
qed

lemma normalize_eq:
  "normalizeSpecifier raw =
     (if HasPrefix (remainder raw) ''.'' then Inr None
      else Inr (Some (if CHR ''/'' \<in> set (remainder raw)
           then (if HasPrefix (remainder raw) ''@''
                 then segment 0 (remainder raw) @ ''/'' @ segment 1 (remainder raw)
                 else segment 0 (remainder raw))
           else remainder raw)))"
  by (simp add: normalizeSpecifier_def strip_loaders_remainder package_root_eq)

lemma normalize_no_panic: "normalizeSpecifier raw \<noteq> Inl e"
  by (simp add: normalize_eq)


lemma set_segment: "set (segment n s) \<subseteq> set s"
proof (induction n arbitrary: s)
  case 0
  show ?case using set_takeWhileD [of _ "\<lambda>x. x \<noteq> CHR ''/''" s] by auto
next
  case (Suc n)
  have "set (drop 1 (dropWhile (\<lambda>x. x \<noteq> CHR ''/'') s)) \<subseteq> set s"
    using set_drop_subset [of 1 "dropWhile (\<lambda>x. x \<noteq> CHR ''/'') s"]
      set_dropWhileD [of _ "\<lambda>x. x \<noteq> CHR ''/''" s] by blast
  with Suc [of "drop 1 (dropWhile (\<lambda>x. x \<noteq> CHR ''/'') s)"] show ?case by auto
qed

lemma segment_free: "CHR ''/'' \<notin> set (segment n s)"
proof (induction n arbitrary: s)
  case 0
  show ?case using set_takeWhileD [of "CHR ''/''" "\<lambda>x. x \<noteq> CHR ''/''" s] by auto
next
  case (Suc n)
  then show ?case by simp
qed

lemma segment0_append: "CHR ''/'' \<notin> set a \<Longrightarrow> segment 0 (a @ CHR ''/'' # b) = a"
  by (induction a) auto

lemma segment1_append: "CHR ''/'' \<notin> set a \<Longrightarrow> segment 1 (a @ CHR ''/'' # b) = segment 0 b"
  by (induction a) auto

lemma segment0_free: "CHR ''/'' \<notin> set b \<Longrightarrow> segment 0 b = b"
  by (simp add: takeWhile_notin)

lemma HasPrefix_segment0:
  "c \<noteq> CHR ''/'' \<Longrightarrow> HasPrefix (segment 0 m @ t) [c] \<longleftrightarrow> HasPrefix m [c] \<or> (segment 0 m = [] \<and> HasPrefix t [c])"
  by (cases m) (auto simp: HasPrefix_char)

section \<open>Matches and captures\<close>


lemma in_ends_Chr:
  "st' \<in> set (ends (Chr c) st) \<longleftrightarrow> (\<exists>xs. rest st = c # xs \<and> st' = st\<lparr>prev := Some c, rest := xs\<rparr>)"
  by (cases "rest st") (auto simp: ends.simps(2))

lemma in_ends_Cat:
  "st' \<in> set (ends (Cat a b) st) \<longleftrightarrow> (\<exists>st1 \<in> set (ends a st). st' \<in> set (ends b st1))"
  by (auto simp: ends.simps(4))

lemma in_ends_Alt:
  "st' \<in> set (ends (Alt a b) st) \<longleftrightarrow> st' \<in> set (ends a st) \<or> st' \<in> set (ends b st)"
  by (auto simp: ends.simps(5))

lemma in_ends_Star:
  "st' \<in> set (ends (Star r) st) \<longleftrightarrow>
     st' = st \<or> (\<exists>st1 \<in> set (ends r st). length (rest st1) < length (rest st) \<and> st' \<in> set (ends (Star r) st1))"
  by (subst ends.simps(6)) (auto split: if_splits)

lemma in_ends_StarLazy:
  "st' \<in> set (ends (StarLazy r) st) \<longleftrightarrow>
     st' = st \<or> (\<exists>st1 \<in> set (ends r st). length (rest st1) < length (rest st) \<and> st' \<in> set (ends (StarLazy r) st1))"
  by (subst ends.simps(7)) (auto split: if_splits)

lemma in_ends_Plus:
  "st' \<in> set (ends (Plus r) st) \<longleftrightarrow> (\<exists>st1 \<in> set (ends r st). st' \<in> set (ends (Star r) st1))"
  by (auto simp: ends.simps(8))

lemma in_ends_Opt:
  "st' \<in> set (ends (Opt r) st) \<longleftrightarrow> st' \<in> set (ends r st) \<or> st' = st"
  by (auto simp: ends.simps(9))

lemma in_ends_OptLazy:
  "st' \<in> set (ends (OptLazy r) st) \<longleftrightarrow> st' \<in> set (ends r st) \<or> st' = st"
  by (auto simp: ends.simps(10))

lemma in_ends_Grp:
  "st' \<in> set (ends (Grp n r) st) \<longleftrightarrow>
     (\<exists>st1 \<in> set (ends r st).
        st' = st1\<lparr>caps := (caps st1)(n \<mapsto> take (length (rest st) - length (rest st1)) (rest st))\<rparr>)"
  by (auto simp: ends.simps(11))

lemma in_ends_anchor:
  "st' \<in> set (ends Eps st) \<Longrightarrow> st' = st"
  "st' \<in> set (ends Bol st) \<Longrightarrow> st' = st"
  "st' \<in> set (ends Eol st) \<Longrightarrow> st' = st"
  "st' \<in> set (ends BoT st) \<Longrightarrow> st' = st"
  "st' \<in> set (ends EoT st) \<Longrightarrow> st' = st"
  by (auto simp: ends.simps(1,12,13,14,15) split: if_splits list.splits)

lemma consumed_self: "consumed st st = []"
  by (simp add: consumed_def)

lemma rest_self: "rest st = consumed st st @ rest st"
  by (simp add: consumed_def)

lemma consumed_unique: "rest st = u @ rest st' \<Longrightarrow> consumed st st' = u"
  by (simp add: consumed_def)

lemma consumed_trans:
  assumes "rest st = consumed st st1 @ rest st1" and "rest st1 = consumed st1 st' @ rest st'"
  shows "rest st = consumed st st' @ rest st'"
proof -
  from assms have *: "rest st = (consumed st st1 @ consumed st1 st') @ rest st'"
    by (metis append.assoc)
  from consumed_unique [OF *] * show ?thesis by metis
qed

lemma consumed_append:
  assumes "rest st = consumed st st1 @ rest st1" and "rest st1 = consumed st1 st' @ rest st'"
  shows "consumed st st' = consumed st st1 @ consumed st1 st'"
proof -
  from assms have *: "rest st = (consumed st st1 @ consumed st1 st') @ rest st'"
    by (metis append.assoc)
  from consumed_unique [OF *] show ?thesis .
qed

lemma rune_width_pos: "s \<noteq> [] \<Longrightarrow> 0 < rune_width s"
  by (cases s) (simp_all add: rune_width_def Let_def)

lemma rune_width_le: "rune_width s \<le> length s"
  by (cases s) (auto simp: rune_width_def Let_def Suc_le_eq)

lemma rune_width_tail:
  "i < rune_width (x # xs) - 1 \<Longrightarrow> 0x80 \<le> (of_char (xs ! i) :: nat)"
proof -
  assume i: "i < rune_width (x # xs) - 1"
  then have "i = 0 \<or> i = 1 \<or> i = 2"
    by (auto simp: rune_width_def Let_def split: if_splits)
  with i show ?thesis
    by (auto simp: rune_width_def Let_def cont_def split: if_splits)
qed

lemma rune_bytes:
  assumes "y \<in> set (take (rune_width (x # xs)) (x # xs))"
  shows "y = x \<or> 0x80 \<le> (of_char y :: nat)"
proof -
  from assms obtain i where i: "i < rune_width (x # xs)" "i < length (x # xs)"
    and y: "y = (x # xs) ! i"
    by (auto simp: in_set_conv_nth)
  show ?thesis
  proof (cases i)
    case 0
    with y show ?thesis by simp
  next
    case (Suc j)
    with i have "j < rune_width (x # xs) - 1" by simp
    from rune_width_tail [OF this] y Suc show ?thesis by simp
  qed
qed

lemma rest_step: "rest (step st) = drop (rune_width (rest st)) (rest st)"
  by (simp add: step_def)

lemma caps_step: "caps (step st) = caps st"
  by (simp add: step_def)

lemma consumed_step: "consumed st (step st) = take (rune_width (rest st)) (rest st)"
  using rune_width_le [of "rest st"] by (simp add: consumed_def rest_step)

lemma in_ends_Set:
  "st' \<in> set (ends (Set k) st) \<longleftrightarrow>
     (\<exists>x xs. rest st = x # xs \<and> cls_match k x \<and> st' = step st)"
  by (cases "rest st") (auto simp: ends.simps(3))

lemma ends_rest: "st' \<in> set (ends r st) \<Longrightarrow> rest st = consumed st st' @ rest st'"
proof (induction r st arbitrary: st' rule: ends.induct)
  case (1 st)
  then show ?case using rest_self by (blast dest: in_ends_anchor)
next
  case (2 c st)
  then show ?case unfolding in_ends_Chr by (elim exE conjE) (simp add: consumed_def)
next
  case (3 k st)
  then have "st' = step st" unfolding in_ends_Set by blast
  then show ?case by (simp add: consumed_step rest_step)
next
  case (4 a b st)
  from 4(3) obtain st1 where st1: "st1 \<in> set (ends a st)" and st': "st' \<in> set (ends b st1)"
    unfolding in_ends_Cat by (elim bexE)
  from 4(1) [OF st1] 4(2) [OF st1 st'] show ?case by (rule consumed_trans)
next
  case (5 a b st)
  then show ?case unfolding in_ends_Alt by blast
next
  case (6 r st)
  from 6(3) consider "st' = st"
    | st1 where "st1 \<in> set (ends r st)" "length (rest st1) < length (rest st)" "st' \<in> set (ends (Star r) st1)"
    unfolding in_ends_Star [of st' r st] by (elim disjE bexE conjE)
  then show ?case
  proof cases
    case 1
    then show ?thesis using rest_self by blast
  next
    case 2
    from 6(1) [OF 2(1)] 6(2) [OF 2(1) 2(2) 2(3)] show ?thesis by (rule consumed_trans)
  qed
next
  case (7 r st)
  from 7(3) consider "st' = st"
    | st1 where "st1 \<in> set (ends r st)" "length (rest st1) < length (rest st)" "st' \<in> set (ends (StarLazy r) st1)"
    unfolding in_ends_StarLazy [of st' r st] by (elim disjE bexE conjE)
  then show ?case
  proof cases
    case 1
    then show ?thesis using rest_self by blast
  next
    case 2
    from 7(1) [OF 2(1)] 7(2) [OF 2(1) 2(2) 2(3)] show ?thesis by (rule consumed_trans)
  qed
next
  case (8 r st)
  from 8(3) obtain st1 where st1: "st1 \<in> set (ends r st)" and st': "st' \<in> set (ends (Star r) st1)"
    unfolding in_ends_Plus by (elim bexE)
  from 8(1) [OF st1] 8(2) [OF st1 st'] show ?case by (rule consumed_trans)
next
  case (9 r st)
  then show ?case unfolding in_ends_Opt using rest_self by blast
next
  case (10 r st)
  then show ?case unfolding in_ends_OptLazy using rest_self by blast
next
  case (11 n r st)
  from 11(2) obtain st1 where st1: "st1 \<in> set (ends r st)"
    and st': "st' = st1\<lparr>caps := (caps st1)(n \<mapsto> take (length (rest st) - length (rest st1)) (rest st))\<rparr>"
    unfolding in_ends_Grp by (elim bexE)
  have "rest st' = rest st1" and "consumed st st' = consumed st st1"
    by (simp_all add: st' consumed_def)
  with 11(1) [OF st1] show ?case by (simp only:)
next
  case (12 st)
  then show ?case using rest_self by (blast dest: in_ends_anchor)
next
  case (13 st)
  then show ?case using rest_self by (blast dest: in_ends_anchor)
next
  case (14 st)
  then show ?case using rest_self by (blast dest: in_ends_anchor)
next
  case (15 st)
  then show ?case using rest_self by (blast dest: in_ends_anchor)
qed


lemma only_consumed:
  "only P r \<Longrightarrow> st' \<in> set (ends r st) \<Longrightarrow> list_all P (consumed st st')"
proof (induction r st arbitrary: st' rule: ends.induct)
  case (1 st)
  then show ?case by (auto dest: in_ends_anchor simp: consumed_self)
next
  case (2 c st)
  then show ?case unfolding in_ends_Chr by (auto simp: consumed_def)
next
  case (3 k st)
  from 3(2) obtain x xs where x: "rest st = x # xs" "cls_match k x" and st': "st' = step st"
    unfolding in_ends_Set by blast
  have "P y" if "y \<in> set (take (rune_width (x # xs)) (x # xs))" for y
    using rune_bytes [OF that] x(2) 3(1) by auto
  then show ?case
    by (simp add: st' consumed_step x(1) list_all_iff del: take_Cons')
next
  case (4 a b st)
  from 4(4) obtain st1 where st1: "st1 \<in> set (ends a st)" and st': "st' \<in> set (ends b st1)"
    unfolding in_ends_Cat by (elim bexE)
  from 4(3) have "only P a" "only P b" by simp_all
  with 4(1) [OF _ st1] 4(2) [OF st1 _ st']
  have "list_all P (consumed st st1)" "list_all P (consumed st1 st')" by simp_all
  then show ?case
    by (simp add: consumed_append [OF ends_rest [OF st1] ends_rest [OF st']])
next
  case (5 a b st)
  then show ?case unfolding in_ends_Alt by auto
next
  case (6 r st)
  from 6(4) consider "st' = st"
    | st1 where "st1 \<in> set (ends r st)" "length (rest st1) < length (rest st)" "st' \<in> set (ends (Star r) st1)"
    unfolding in_ends_Star [of st' r st] by (elim disjE bexE conjE)
  then show ?case
  proof cases
    case 1
    then show ?thesis by (simp add: consumed_self)
  next
    case 2
    from 6(3) have "only P r" by simp
    with 6(1) [OF _ 2(1)] 6(2) [OF 2(1) 2(2) 6(3) 2(3)]
    have "list_all P (consumed st st1)" "list_all P (consumed st1 st')" by simp_all
    then show ?thesis
      by (simp add: consumed_append [OF ends_rest [OF 2(1)] ends_rest [OF 2(3)]])
  qed
next
  case (7 r st)
  from 7(4) consider "st' = st"
    | st1 where "st1 \<in> set (ends r st)" "length (rest st1) < length (rest st)" "st' \<in> set (ends (StarLazy r) st1)"
    unfolding in_ends_StarLazy [of st' r st] by (elim disjE bexE conjE)
  then show ?case
  proof cases
    case 1
    then show ?thesis by (simp add: consumed_self)
  next
    case 2
    from 7(3) have "only P r" by simp
    with 7(1) [OF _ 2(1)] 7(2) [OF 2(1) 2(2) 7(3) 2(3)]
    have "list_all P (consumed st st1)" "list_all P (consumed st1 st')" by simp_all
    then show ?thesis
      by (simp add: consumed_append [OF ends_rest [OF 2(1)] ends_rest [OF 2(3)]])
  qed
next
  case (8 r st)
  from 8(4) obtain st1 where st1: "st1 \<in> set (ends r st)" and st': "st' \<in> set (ends (Star r) st1)"
    unfolding in_ends_Plus by (elim bexE)
  from 8(3) have "only P r" "only P (Star r)" by simp_all
  with 8(1) [OF _ st1] 8(2) [OF st1 _ st']
  have "list_all P (consumed st st1)" "list_all P (consumed st1 st')" by simp_all
  then show ?case
    by (simp add: consumed_append [OF ends_rest [OF st1] ends_rest [OF st']])
next
  case (9 r st)
  then show ?case unfolding in_ends_Opt by (auto simp: consumed_self)
next
  case (10 r st)
  then show ?case unfolding in_ends_OptLazy by (auto simp: consumed_self)
next
  case (11 n r st)
  from 11(3) obtain st1 where st1: "st1 \<in> set (ends r st)"
    and st': "st' = st1\<lparr>caps := (caps st1)(n \<mapsto> take (length (rest st) - length (rest st1)) (rest st))\<rparr>"
    unfolding in_ends_Grp by (elim bexE)
  have "consumed st st' = consumed st st1"
    by (simp add: st' consumed_def)
  with 11(1) [OF _ st1] 11(2) show ?case by simp
next
  case (12 st)
  then show ?case by (auto dest: in_ends_anchor simp: consumed_self)
next
  case (13 st)
  then show ?case by (auto dest: in_ends_anchor simp: consumed_self)
next
  case (14 st)
  then show ?case by (auto dest: in_ends_anchor simp: consumed_self)
next
  case (15 st)
  then show ?case by (auto dest: in_ends_anchor simp: consumed_self)
qed

lemma group_only_caps:
  "group_only P n r \<Longrightarrow> st' \<in> set (ends r st) \<Longrightarrow> cap_ok P n st \<Longrightarrow> cap_ok P n st'"
proof (induction r st arbitrary: st' rule: ends.induct)
  case (1 st)
  then show ?case by (auto dest: in_ends_anchor)
next
  case (2 c st)
  then show ?case unfolding in_ends_Chr by (auto simp: cap_ok_def)
next
  case (3 k st)
  then show ?case unfolding in_ends_Set by (auto simp: cap_ok_def caps_step)
next
  case (4 a b st)
  from 4(4) obtain st1 where st1: "st1 \<in> set (ends a st)" and st': "st' \<in> set (ends b st1)"
    unfolding in_ends_Cat by (elim bexE)
  from 4(3) have "group_only P n a" "group_only P n b" by simp_all
  with 4(1) [OF _ st1 4(5)] 4(2) [OF st1 _ st'] show ?case by simp
next
  case (5 a b st)
  then show ?case unfolding in_ends_Alt by auto
next
  case (6 r st)
  from 6(4) consider "st' = st"
    | st1 where "st1 \<in> set (ends r st)" "length (rest st1) < length (rest st)" "st' \<in> set (ends (Star r) st1)"
    unfolding in_ends_Star [of st' r st] by (elim disjE bexE conjE)
  then show ?case
  proof cases
    case 1
    with 6(5) show ?thesis by simp
  next
    case 2
    from 6(3) have "group_only P n r" by simp
    with 6(1) [OF _ 2(1) 6(5)] 6(2) [OF 2(1) 2(2) 6(3) 2(3)] show ?thesis by simp
  qed
next
  case (7 r st)
  from 7(4) consider "st' = st"
    | st1 where "st1 \<in> set (ends r st)" "length (rest st1) < length (rest st)" "st' \<in> set (ends (StarLazy r) st1)"
    unfolding in_ends_StarLazy [of st' r st] by (elim disjE bexE conjE)
  then show ?case
  proof cases
    case 1
    with 7(5) show ?thesis by simp
  next
    case 2
    from 7(3) have "group_only P n r" by simp
    with 7(1) [OF _ 2(1) 7(5)] 7(2) [OF 2(1) 2(2) 7(3) 2(3)] show ?thesis by simp
  qed
next
  case (8 r st)
  from 8(4) obtain st1 where st1: "st1 \<in> set (ends r st)" and st': "st' \<in> set (ends (Star r) st1)"
    unfolding in_ends_Plus by (elim bexE)
  from 8(3) have "group_only P n r" "group_only P n (Star r)" by simp_all
  with 8(1) [OF _ st1 8(5)] 8(2) [OF st1 _ st'] show ?case by simp
next
  case (9 r st)
  then show ?case unfolding in_ends_Opt by auto
next
  case (10 r st)
  then show ?case unfolding in_ends_OptLazy by auto
next
  case (11 m r st)
  from 11(3) obtain st1 where st1: "st1 \<in> set (ends r st)"
    and st': "st' = st1\<lparr>caps := (caps st1)(m \<mapsto> consumed st st1)\<rparr>"
    unfolding in_ends_Grp consumed_def by (elim bexE)
  show ?case
  proof (cases "m = n")
    case True
    with 11(2) have "only P r" by simp
    from only_consumed [OF this st1] True show ?thesis
      by (simp add: st' cap_ok_def)
  next
    case False
    with 11(2) have "group_only P n r" by simp
    from 11(1) [OF this st1 11(4)] False show ?thesis
      by (simp add: st' cap_ok_def)
  qed
next
  case (12 st)
  then show ?case by (auto dest: in_ends_anchor)
next
  case (13 st)
  then show ?case by (auto dest: in_ends_anchor)
next
  case (14 st)
  then show ?case by (auto dest: in_ends_anchor)
next
  case (15 st)
  then show ?case by (auto dest: in_ends_anchor)
qed


lemma cap_ok_init: "cap_ok P n \<lparr>prev = p, rest = s, caps = (\<lambda>_. None)\<rparr>"
  by (simp add: cap_ok_def)

lemma exec_at_cap_ok:
  assumes "exec_at r p s = Some st" and "group_only P n r"
  shows "cap_ok P n st"
proof -
  from assms(1) have "st \<in> set (ends r \<lparr>prev = p, rest = s, caps = (\<lambda>_. None)\<rparr>)"
    by (auto simp: exec_at_def split: list.splits)
  from group_only_caps [OF assms(2) this cap_ok_init] show ?thesis .
qed

lemma submatch_length: "length (submatch r s st) = Suc (ngroups r)"
  by (simp add: submatch_def)

lemma submatch_group:
  "1 \<le> n \<Longrightarrow> n \<le> ngroups r \<Longrightarrow>
   submatch r s st ! n = (case caps st n of None \<Rightarrow> [] | Some g \<Rightarrow> g)"
  by (cases n) (simp_all add: submatch_def nth_map_upt del: upt_Suc)

lemma submatch_cap_ok:
  "cap_ok P n st \<Longrightarrow> 1 \<le> n \<Longrightarrow> n \<le> ngroups r \<Longrightarrow> list_all P (submatch r s st ! n)"
  by (simp add: submatch_group cap_ok_def split: option.splits)

lemma leftmost_submatch:
  "leftmost r p s = Some (m, st) \<Longrightarrow> \<exists>p' s'. exec_at r p' s' = Some st \<and> m = submatch r s' st"
proof (induction r p s rule: leftmost.induct)
  case (1 r p s)
  show ?case
  proof (cases "exec_at r p s")
    case None
    with 1(2) have ne: "s \<noteq> []"
      and "leftmost r (Some (last (take (rune_width s) s))) (drop (rune_width s) s) = Some (m, st)"
      by (auto simp: leftmost.simps [of r p s] split: if_splits)
    with 1(1) [OF None ne] show ?thesis by blast
  next
    case (Some st1)
    with 1(2) show ?thesis by (auto simp: leftmost.simps [of r p s])
  qed
qed

lemma allMatches_submatch:
  "m \<in> set (allMatches r a p s) \<Longrightarrow> \<exists>p' s' st. exec_at r p' s' = Some st \<and> m = submatch r s' st"
proof (induction r a p s rule: allMatches.induct)
  case (1 r afterMatch p s)
  show ?case
  proof (cases "leftmost r p s")
    case None
    with 1(3) show ?thesis by (simp add: allMatches.simps [of r afterMatch p s])
  next
    case (Some a)
    obtain m0 st where a: "a = (m0, st)" by (cases a)
    note lm = Some [unfolded a]
    from leftmost_submatch [OF lm] have m0: "\<exists>p' s' st. exec_at r p' s' = Some st \<and> m0 = submatch r s' st"
      by blast
    show ?thesis
    proof (cases "length (rest st) < length s")
      case True
      with 1(3) lm have "m = m0 \<or> m \<in> set (allMatches r True (prev st) (rest st))"
        by (simp add: allMatches.simps [of r afterMatch p s])
      with m0 1(1) [OF lm refl True] show ?thesis by blast
    next
      case False
      with 1(3) lm have "m = m0 \<or> (s \<noteq> [] \<and>
          m \<in> set (allMatches r False (Some (last (take (rune_width s) s))) (drop (rune_width s) s)))"
        by (auto simp: allMatches.simps [of r afterMatch p s] split: if_splits)
      with m0 1(2) [OF lm refl False] show ?thesis by blast
    qed
  qed
qed

lemma FindAll_length: "m \<in> set (FindAllStringSubmatch r s) \<Longrightarrow> length m = Suc (ngroups r)"
  unfolding FindAllStringSubmatch_def
  by (drule allMatches_submatch) (auto simp: submatch_length)

lemma FindAll_group_only:
  assumes "m \<in> set (FindAllStringSubmatch r s)" and "group_only P n r" and "1 \<le> n" and "n \<le> ngroups r"
  shows "list_all P (m ! n)"
proof -
  from assms(1) obtain p' s' st where "exec_at r p' s' = Some st" and m: "m = submatch r s' st"
    unfolding FindAllStringSubmatch_def by (blast dest: allMatches_submatch)
  from exec_at_cap_ok [OF this(1) assms(2)] assms(3,4) show ?thesis
    unfolding m by (rule submatch_cap_ok)
qed

lemma ListLockfile_loop_eq:
  "\<forall>m \<in> set matches. 3 \<le> length m \<Longrightarrow>
   ListLockfile_loop pkgs matches = Inr (pkgs ++ map_of (rev (map (\<lambda>m. (m ! 1, m ! 2)) matches)))"
proof (induction matches arbitrary: pkgs)
  case Nil
  then show ?case by simp
next
  case (Cons m matches)
  from Cons.prems obtain w name version more where m: "m = w # name # version # more"
    by (cases m; cases "tl m"; cases "tl (tl m)") auto
  from Cons.prems have rest: "\<forall>m \<in> set matches. 3 \<le> length m" by simp
  have "ListLockfile_loop pkgs (m # matches) = ListLockfile_loop (pkgs(name \<mapsto> version)) matches"
    by (simp add: m)
  also have "\<dots> = Inr (pkgs(name \<mapsto> version) ++ map_of (rev (map (\<lambda>m. (m ! 1, m ! 2)) matches)))"
    using rest by (rule Cons.IH)
  also have "pkgs(name \<mapsto> version) ++ map_of (rev (map (\<lambda>m. (m ! 1, m ! 2)) matches)) =
      pkgs ++ map_of (rev (map (\<lambda>m. (m ! 1, m ! 2)) (m # matches)))"
    by (simp add: m)
  finally show ?case .
qed

lemma ngroups_lockfile_re: "ngroups lockfile_re = 2"
  by (simp add: lockfile_re_def str_def)

lemma group_only_lockfile_re:
  "group_only (\<lambda>c. c \<noteq> CHR ''@'' \<and> c \<noteq> CHR '' '' \<and> c \<noteq> newline) 1 lockfile_re"
  by (auto simp: lockfile_re_def str_def newline_def)

lemma ListLockfile_total:
  "ListLockfile (Inr contents) =
     Inr (map_of (rev (map (\<lambda>m. (m ! 1, m ! 2)) (FindAllStringSubmatch lockfile_re contents))))"
proof -
  have "\<forall>m \<in> set (FindAllStringSubmatch lockfile_re contents). 3 \<le> length m"
    by (auto dest: FindAll_length simp: ngroups_lockfile_re)
  from ListLockfile_loop_eq [OF this] show ?thesis
    by (simp add: ListLockfile_def)
qed

lemma ListLockfile_names:
  assumes "ListLockfile (Inr contents) = Inr pkgs" and "name \<in> dom pkgs"
  shows "CHR ''@'' \<notin> set name \<and> CHR '' '' \<notin> set name \<and> newline \<notin> set name"
proof -
  from assms have "name \<in> dom (map_of (rev (map (\<lambda>m. (m ! 1, m ! 2)) (FindAllStringSubmatch lockfile_re contents))))"
    by (simp add: ListLockfile_total)
  then obtain m where m: "m \<in> set (FindAllStringSubmatch lockfile_re contents)" and name: "name = m ! 1"
    by (auto simp: dom_map_of_conv_image_fst)
  have "list_all (\<lambda>c. c \<noteq> CHR ''@'' \<and> c \<noteq> CHR '' '' \<and> c \<noteq> newline) (m ! 1)"
    by (rule FindAll_group_only [OF m group_only_lockfile_re]) (simp_all add: ngroups_lockfile_re)
  then show ?thesis by (auto simp: name list_all_iff)
qed


section \<open>The loops of the backend\<close>


lemma Guess_loop_append:
  "Guess_loop pkgs (xs @ ys) =
     (case Guess_loop pkgs xs of Inl e \<Rightarrow> Inl e | Inr pkgs' \<Rightarrow> Guess_loop pkgs' ys)"
  by (induction xs arbitrary: pkgs) (auto split: sum.splits option.splits)

lemma Guess_loop_skip:
  "match \<noteq> [] \<Longrightarrow> normalizeSpecifier (Join (drop 1 match) '''') = Inr None \<Longrightarrow>
   Guess_loop pkgs (match # matches) = Guess_loop pkgs matches"
  by simp

lemma Guess_loop_total:
  "\<forall>m \<in> set matches. m \<noteq> [] \<Longrightarrow> \<exists>cand. Guess_loop pkgs matches = Inr cand"
proof (induction matches arbitrary: pkgs)
  case Nil
  then show ?case by simp
next
  case (Cons m matches)
  then have IH: "\<And>pkgs. \<exists>cand. Guess_loop pkgs matches = Inr cand" by simp
  from Cons.prems have "m \<noteq> []" by simp
  then show ?case
    using IH normalize_no_panic [of "Join (drop 1 m) ''''"]
    by (cases "normalizeSpecifier (Join (drop 1 m) '''')") (auto split: option.splits)
qed

lemma delete_loop_eq:
  "delete_loop pkgs modules = (\<lambda>p. if p \<in> set modules then None else pkgs p)"
  by (induction modules arbitrary: pkgs) (auto simp: fun_eq_iff)

lemma SearchRecursive_length:
  "m \<in> set (SearchRecursive r patterns files) \<Longrightarrow> length m = Suc (ngroups r)"
  by (auto simp: SearchRecursive_def dest: FindAll_length)

lemma SearchRecursive_nonempty:
  "\<forall>m \<in> set (SearchRecursive r patterns files). m \<noteq> []"
  using SearchRecursive_length by fastforce



lemma range_assign_eq: "range_assign pkgs entries = pkgs ++ map_of (rev entries)"
proof (induction entries arbitrary: pkgs)
  case Nil
  then show ?case by simp
next
  case (Cons e entries)
  obtain k v where e: "e = (k, v)" by (cases e)
  have "range_assign pkgs (e # entries) = range_assign (pkgs(k \<mapsto> v)) entries"
    by (simp add: e)
  also have "\<dots> = pkgs(k \<mapsto> v) ++ map_of (rev entries)" by (rule Cons.IH)
  also have "\<dots> = pkgs ++ map_of (rev (e # entries))" by (simp add: e)
  finally show ?case .
qed

lemma map_of_rev_distinct: "distinct (map fst xs) \<Longrightarrow> map_of (rev xs) = map_of xs"
proof (induction xs)
  case Nil
  then show ?case by simp
next
  case (Cons x xs)
  obtain k v where x: "x = (k, v)" by (cases x)
  from Cons.prems have k: "k \<notin> fst ` set xs" and d: "distinct (map fst xs)" by (simp_all add: x)
  from k have "map_of xs k = None" by (simp add: map_of_eq_None_iff)
  then have "[k \<mapsto> v] ++ map_of xs = (map_of xs)(k \<mapsto> v)"
    by (auto simp: fun_eq_iff map_add_def split: option.splits)
  with Cons.IH [OF d] show ?case by (simp add: x)
qed

lemma loop_filter:
  "lastVersion_loop V lv (filter (is_candidate V) versions) = lastVersion_loop V lv versions"
  by (induction versions arbitrary: lv) (auto simp: is_candidate_def split: option.splits)

lemma candidates_filter:
  "candidates V (filter (is_candidate V) versions) = candidates V versions"
  by (induction versions) (auto simp: is_candidate_def split: option.splits)

lemma candidates_label:
  "v \<in> set (candidates V versions) \<Longrightarrow>
     \<exists>s \<in> set versions. NewVersion V s = Some v \<and> Prerelease V v = ''''"
  by (induction versions) (auto split: option.splits if_splits)

lemma loop_none: "candidates V versions = [] \<Longrightarrow> lastVersion_loop V lv versions = lv"
  by (induction versions arbitrary: lv) (auto split: option.splits if_splits)


lemma strict_on_subset: "strict_on gt T \<Longrightarrow> S \<subseteq> T \<Longrightarrow> strict_on gt S"
  unfolding strict_on_def by blast

lemma strict_on_irrefl: "strict_on gt T \<Longrightarrow> a \<in> T \<Longrightarrow> \<not> gt a a"
  unfolding strict_on_def by blast

lemma strict_on_trans:
  "strict_on gt T \<Longrightarrow> a \<in> T \<Longrightarrow> b \<in> T \<Longrightarrow> c \<in> T \<Longrightarrow> gt a b \<Longrightarrow> gt b c \<Longrightarrow> gt a c"
  unfolding strict_on_def by blast

lemma loop_max:
  "strict_on (GreaterThan V) (set (candidates V versions) \<union> set_option lv) \<Longrightarrow>
   set (candidates V versions) \<union> set_option lv \<noteq> {} \<Longrightarrow>
   \<exists>m \<in> set (candidates V versions) \<union> set_option lv.
      lastVersion_loop V lv versions = Some m \<and>
      (\<forall>c \<in> set (candidates V versions) \<union> set_option lv. \<not> GreaterThan V c m) \<and>
      (\<forall>l. lv = Some l \<longrightarrow> m = l \<or> GreaterThan V m l)"
proof (induction versions arbitrary: lv)
  case Nil
  then obtain l where "lv = Some l" by (cases lv) auto
  with Nil show ?case by (auto dest: strict_on_irrefl)
next
  case (Cons s versions)
  let ?C = "set (candidates V versions)"
  let ?gt = "GreaterThan V"
  show ?case
  proof (cases "is_candidate V s")
    case False
    then have "candidates V (s # versions) = candidates V versions"
      and "lastVersion_loop V lv (s # versions) = lastVersion_loop V lv versions"
      by (auto simp: is_candidate_def split: option.splits)
    with Cons show ?thesis by simp
  next
    case True
    then obtain v where v: "NewVersion V s = Some v" "Prerelease V v = []"
      by (auto simp: is_candidate_def split: option.splits)
    then have cands: "candidates V (s # versions) = v # candidates V versions" by simp
    from Cons.prems(1) [unfolded cands] have so: "strict_on ?gt (insert v ?C \<union> set_option lv)"
      by simp
    show ?thesis
    proof (cases lv)
      case None
      with v have step: "lastVersion_loop V lv (s # versions) = lastVersion_loop V (Some v) versions"
        by simp
      from so None have "strict_on ?gt (?C \<union> set_option (Some v))" by simp
      from Cons.IH [OF this] obtain m where
        "m \<in> ?C \<union> {v}" "lastVersion_loop V (Some v) versions = Some m"
        "\<forall>c \<in> ?C \<union> {v}. \<not> ?gt c m"
        by auto
      with None show ?thesis unfolding cands step by auto
    next
      case (Some l)
      show ?thesis
      proof (cases "?gt v l")
        case gt: True
        with v Some have step: "lastVersion_loop V lv (s # versions) = lastVersion_loop V (Some v) versions"
          by simp
        from so have "strict_on ?gt (?C \<union> set_option (Some v))"
          by (rule strict_on_subset) auto
        from Cons.IH [OF this] obtain m where m:
          "m \<in> ?C \<union> {v}" "lastVersion_loop V (Some v) versions = Some m"
          "\<forall>c \<in> ?C \<union> {v}. \<not> ?gt c m" "m = v \<or> ?gt m v"
          by auto
        have inT: "m \<in> insert v ?C \<union> set_option lv" "v \<in> insert v ?C \<union> set_option lv"
          "l \<in> insert v ?C \<union> set_option lv"
          using m(1) Some by auto
        have ml: "?gt m l"
          using m(4) gt strict_on_trans [OF so inT(1) inT(2) inT(3)] by blast
        have "\<not> ?gt l m"
          using ml strict_on_trans [OF so inT(3) inT(1) inT(3)] strict_on_irrefl [OF so inT(3)]
          by blast
        with m ml Some show ?thesis unfolding cands step by auto
      next
        case ngt: False
        with v Some have step: "lastVersion_loop V lv (s # versions) = lastVersion_loop V (Some l) versions"
          by simp
        from so Some have "strict_on ?gt (?C \<union> set_option (Some l))"
          by (elim strict_on_subset) auto
        from Cons.IH [OF this] obtain m where m:
          "m \<in> ?C \<union> {l}" "lastVersion_loop V (Some l) versions = Some m"
          "\<forall>c \<in> ?C \<union> {l}. \<not> ?gt c m" "m = l \<or> ?gt m l"
          by auto
        have inT: "m \<in> insert v ?C \<union> set_option lv" "v \<in> insert v ?C \<union> set_option lv"
          "l \<in> insert v ?C \<union> set_option lv"
          using m(1) Some by auto
        have "\<not> ?gt v m"
          using m(4) ngt strict_on_trans [OF so inT(2) inT(1) inT(3)] by blast
        with m Some show ?thesis unfolding cands step by auto
      qed
    qed
  qed
qed


lemma Guess_loop_dom:
  "Guess_loop pkgs matches = Inr pkgs' \<Longrightarrow>
     dom pkgs' = dom pkgs \<union>
       {name. \<exists>match \<in> set matches. normalizeSpecifier (Join (drop 1 match) '''') = Inr (Some name)}"
proof (induction matches arbitrary: pkgs)
  case Nil
  then show ?case by simp
next
  case (Cons m matches)
  from Cons.prems have ne: "m \<noteq> []" by (auto split: if_splits)
  show ?case
  proof (cases "normalizeSpecifier (Join (drop 1 m) '''')")
    case (Inl e)
    with Cons.prems ne show ?thesis by simp
  next
    case (Inr r)
    show ?thesis
    proof (cases r)
      case None
      with Inr Cons.prems ne have "Guess_loop pkgs matches = Inr pkgs'" by simp
      from Cons.IH [OF this] Inr None show ?thesis by auto
    next
      case (Some name)
      with Inr Cons.prems ne have "Guess_loop (pkgs(name \<mapsto> True)) matches = Inr pkgs'" by simp
      from Cons.IH [OF this] have "dom pkgs' = insert name (dom pkgs) \<union>
          {name. \<exists>match \<in> set matches. normalizeSpecifier (Join (drop 1 match) '''') = Inr (Some name)}"
        by (simp only: dom_fun_upd option.distinct if_False)
      with Inr Some show ?thesis by auto
    qed
  qed
qed

section \<open>The order of the version package\<close>


lemma digit_range: "cls_match digit c \<longleftrightarrow> 48 \<le> (of_char c :: nat) \<and> (of_char c :: nat) \<le> 57"
  by (simp add: digit_def)

lemma ParseInt_nonneg: "ParseInt s = Some val \<Longrightarrow> 0 \<le> val"
proof -
  have "0 \<le> foldl (\<lambda>a c. 10 * a + (int (of_char c) - 48)) a s"
    if "list_all (cls_match digit) s" "0 \<le> a" for a
    using that
  proof (induction s arbitrary: a)
    case Nil
    then show ?case by simp
  next
    case (Cons c s)
    from Cons.prems have "0 \<le> 10 * a + (int (of_char c) - 48)"
      by (simp add: digit_range)
    with Cons show ?case by simp
  qed
  then show "ParseInt s = Some val \<Longrightarrow> 0 \<le> val"
    by (auto simp: ParseInt_def Let_def split: if_splits)
qed

lemma those_map_all:
  "those (map f xs) = Some ys \<Longrightarrow> (\<And>x y. f x = Some y \<Longrightarrow> Q y) \<Longrightarrow> list_all Q ys"
  by (induction xs arbitrary: ys) (auto split: option.splits)

lemma go_NewVersion_nonneg:
  assumes "go_NewVersion s = Some v"
  shows "list_all (\<lambda>x. 0 \<le> x) (segments v)"
proof -
  from assms obtain matches segs where
    "those (map ParseInt (Split (matches ! 1) ''.'')) = Some segs"
    and seg: "segments v = segs @ replicate (3 - length segs) 0"
    by (auto simp: go_NewVersion_def Let_def split: option.splits)
  from those_map_all [OF this(1), of "\<lambda>x. 0 \<le> x"] have "list_all (\<lambda>x. 0 \<le> x) segs"
    by (simp add: ParseInt_nonneg)
  then show ?thesis by (auto simp: seg list_all_iff)
qed

lemma compareSegments_refl: "compareSegments a a = 0"
  by (induction a) auto

lemma compareSegments_zero:
  "list_all (\<lambda>s. s = 0) a \<Longrightarrow> list_all (\<lambda>x. 0 \<le> x) b \<Longrightarrow> compareSegments a b \<noteq> 1"
  by (induction a b rule: compareSegments.induct) (auto split: if_splits)

lemma compareSegments_trans:
  "list_all (\<lambda>x. 0 \<le> x) a \<Longrightarrow> list_all (\<lambda>x. 0 \<le> x) b \<Longrightarrow> list_all (\<lambda>x. 0 \<le> x) c \<Longrightarrow>
   compareSegments a b = 1 \<Longrightarrow> compareSegments b c = 1 \<Longrightarrow> compareSegments a c = 1"
proof (induction a arbitrary: b c)
  case Nil
  then show ?case by (cases b) (auto split: if_splits)
next
  case (Cons x a)
  show ?case
  proof (cases b)
    case Nil
    with Cons.prems show ?thesis by (cases c) (auto split: if_splits)
  next
    case b: (Cons y b')
    show ?thesis
    proof (cases c)
      case Nil
      have "\<not> list_all (\<lambda>s. s = 0) (x # a)"
      proof
        assume z: "list_all (\<lambda>s. s = 0) (x # a)"
        with Cons.prems(2,4) b have "x = y" by (auto split: if_splits)
        with z Cons.prems(4) b have "compareSegments a b' = 1" "list_all (\<lambda>s. s = 0) a"
          by (auto split: if_splits)
        with compareSegments_zero [of a b'] Cons.prems(2) b show False by simp
      qed
      with Nil show ?thesis by simp
    next
      case c: (Cons z c')
      from Cons.prems(4) b have xy: "(x = y \<and> compareSegments a b' = 1) \<or> y < x"
        by (auto split: if_splits)
      from Cons.prems(5) b c have yz: "(y = z \<and> compareSegments b' c' = 1) \<or> z < y"
        by (auto split: if_splits)
      show ?thesis
      proof (cases "x = z")
        case True
        with xy yz have "compareSegments a b' = 1" "compareSegments b' c' = 1" by auto
        with Cons.IH [of b' c'] Cons.prems(1,2,3) b c have "compareSegments a c' = 1" by simp
        with True c show ?thesis by simp
      next
        case False
        with xy yz have "z < x" by auto
        with c show ?thesis by simp
      qed
    qed
  qed
qed


lemma decimal_value: "foldl (\<lambda>a c. 10 * a + (int (of_char c) - 48)) 0 (decimal n) = int n"
proof (induction n rule: decimal.induct)
  case (1 n)
  show ?case
  proof (cases "n < 10")
    case True
    then show ?thesis by (subst decimal.simps) simp
  next
    case False
    have "n mod 10 < 10" by simp
    then have c: "int (of_char (char_of (48 + n mod 10))) = 48 + int (n mod 10)"
      by (simp add: of_char_of [where ?'a = nat])
    from False 1 have "foldl (\<lambda>a c. 10 * a + (int (of_char c) - 48)) 0 (decimal n) =
        10 * int (n div 10) + int (n mod 10)"
      by (subst decimal.simps) (simp add: c)
    then show ?thesis by (simp add: zmod_int zdiv_int)
  qed
qed

lemma decimal_inj: "decimal a = decimal b \<Longrightarrow> a = b"
proof -
  assume e: "decimal a = decimal b"
  have "int a = foldl (\<lambda>a c. 10 * a + (int (of_char c) - 48)) 0 (decimal a)"
    by (rule decimal_value [symmetric])
  also have "\<dots> = foldl (\<lambda>a c. 10 * a + (int (of_char c) - 48)) 0 (decimal b)"
    by (simp only: e)
  also have "\<dots> = int b"
    by (rule decimal_value)
  finally show "a = b" by simp
qed

lemma digit_char: "k < 10 \<Longrightarrow> (of_char (char_of (48 + k)) :: nat) = 48 + k"
proof -
  assume "k < 10"
  then have "(48 + k) mod 256 = 48 + k" by (intro mod_less) simp
  then show ?thesis by (simp only: of_char_of)
qed

lemma decimal_digits: "c \<in> set (decimal n) \<Longrightarrow> 48 \<le> (of_char c :: nat) \<and> (of_char c :: nat) \<le> 57"
proof (induction n rule: decimal.induct)
  case (1 n)
  show ?case
  proof (cases "n < 10")
    case True
    with 1(2) have "c = char_of (48 + n)" by (subst (asm) decimal.simps) simp
    with digit_char [OF True] True show ?thesis by simp
  next
    case False
    with 1(2) have "c \<in> set (decimal (n div 10)) \<or> c = char_of (48 + n mod 10)"
      by (subst (asm) decimal.simps) auto
    moreover have "n mod 10 < 10" by simp
    note digit_char [OF this]
    ultimately show ?thesis using 1(1) [OF False] by auto
  qed
qed

lemma FormatInt_free:
  "0 \<le> i \<Longrightarrow> CHR ''.'' \<notin> set (FormatInt i) \<and> CHR ''+'' \<notin> set (FormatInt i)"
  using decimal_digits [of "CHR ''.''" "nat i"] decimal_digits [of "CHR ''+''" "nat i"]
  by (auto simp: FormatInt_def)

lemma FormatInt_inj: "0 \<le> i \<Longrightarrow> 0 \<le> j \<Longrightarrow> FormatInt i = FormatInt j \<Longrightarrow> i = j"
  by (auto simp: FormatInt_def dest: decimal_inj)

lemma Split_Join:
  "xs \<noteq> [] \<Longrightarrow> \<forall>x \<in> set xs. c \<notin> set x \<Longrightarrow> Split (Join xs [c]) [c] = xs"
proof (induction xs rule: list_nonempty_induct)
  case (single a)
  then show ?case by (simp add: Split_char_notin)
next
  case (cons a xs)
  from cons.hyps obtain b elems where xs: "xs = b # elems" by (cases xs) auto
  have ca: "c \<notin> set a" using cons.prems by simp
  have "takeWhile (\<lambda>x. x \<noteq> c) (a @ c # Join xs [c]) = a"
    using ca by (induction a) auto
  moreover have "tl (dropWhile (\<lambda>x. x \<noteq> c) (a @ c # Join xs [c])) = Join xs [c]"
    using ca by (induction a) auto
  moreover have "Split (Join xs [c]) [c] = xs"
    using cons by simp
  ultimately show ?case
    by (simp add: xs Split_char_in [of c "a @ c # Join (b # elems) [c]"])
qed

lemma Join_free:
  "\<forall>x \<in> set xs. d \<notin> set x \<Longrightarrow> d \<noteq> c \<Longrightarrow> d \<notin> set (Join xs [c])"
  by (induction xs "[c]" rule: Join.induct) auto


lemma go_NewVersion_segments: "go_NewVersion s = Some v \<Longrightarrow> segments v \<noteq> []"
  by (auto simp: go_NewVersion_def Let_def split: option.splits)

lemma takeWhile_append_stop:
  "\<forall>x \<in> set xs. P x \<Longrightarrow> ys = [] \<or> \<not> P (hd ys) \<Longrightarrow> takeWhile P (xs @ ys) = xs"
  by (induction xs) (auto simp: takeWhile_eq_Nil_iff)

lemma go_String_segments:
  assumes "pre a = []" "pre c = []"
    and "list_all (\<lambda>x. 0 \<le> x) (segments a)" "list_all (\<lambda>x. 0 \<le> x) (segments c)"
    and "segments a \<noteq> []" "segments c \<noteq> []"
    and eq: "go_String a = go_String c"
  shows "segments a = segments c"
proof -
  let ?J = "\<lambda>v. Join (map FormatInt (segments v)) ''.''"
  let ?M = "\<lambda>v. if metadata v \<noteq> [] then CHR ''+'' # metadata v else []"
  have str: "go_String v = ?J v @ ?M v" if "pre v = []" for v
    using that by (simp add: go_String_def)
  have free: "CHR ''+'' \<notin> set (?J v) \<and> (\<forall>x \<in> set (map FormatInt (segments v)). CHR ''.'' \<notin> set x)"
    if "list_all (\<lambda>x. 0 \<le> x) (segments v)" for v
  proof -
    from that have "\<forall>x \<in> set (map FormatInt (segments v)). CHR ''+'' \<notin> set x \<and> CHR ''.'' \<notin> set x"
      by (auto simp: list_all_iff dest: FormatInt_free)
    then show ?thesis using Join_free [of "map FormatInt (segments v)" "CHR ''+''" "CHR ''.''"]
      by auto
  qed
  have J: "takeWhile (\<lambda>x. x \<noteq> CHR ''+'') (go_String v) = ?J v"
    if "pre v = []" "list_all (\<lambda>x. 0 \<le> x) (segments v)" for v
    unfolding str [OF that(1)] using free [OF that(2)]
    by (intro takeWhile_append_stop) auto
  from eq J [OF assms(1,3)] J [OF assms(2,4)] have "?J a = ?J c" by simp
  then have "Split (?J a) ''.'' = Split (?J c) ''.''" by simp
  with free [OF assms(3)] free [OF assms(4)] assms(5,6)
  have "map FormatInt (segments a) = map FormatInt (segments c)"
    by (simp add: Split_Join)
  moreover have "inj_on FormatInt (set (segments a) \<union> set (segments c))"
    using assms(3,4) FormatInt_inj unfolding inj_on_def list_all_iff by blast
  ultimately show ?thesis by (simp add: inj_on_map_eq_map)
qed

lemma compareSegments_range: "compareSegments a b \<in> {- 1, 0, 1}"
  by (induction a b rule: compareSegments.induct) auto

lemma Compare_release:
  "pre v = [] \<Longrightarrow> pre other = [] \<Longrightarrow>
   Compare cp v other =
     (if go_String v = go_String other \<or> segments v = segments other then 0
      else compareSegments (segments v) (segments other))"
  by (simp add: Compare_def)

lemma go_version_simps:
  "NewVersion (go_version cp) = go_NewVersion"
  "Prerelease (go_version cp) = pre"
  "GreaterThan (go_version cp) v other = (0 < Compare cp v other)"
  "String (go_version cp) = go_String"
  by (simp_all add: go_version_def)

lemma go_version_strict:
  "strict_on (GreaterThan (go_version cp)) (set (candidates (go_version cp) versions))"
proof -
  let ?T = "set (candidates (go_version cp) versions)"
  have T: "pre v = [] \<and> list_all (\<lambda>x. 0 \<le> x) (segments v) \<and> segments v \<noteq> []" if "v \<in> ?T" for v
    using candidates_label [OF that] go_NewVersion_nonneg go_NewVersion_segments
    by (auto simp: go_version_simps)
  have gt: "0 < Compare cp a b \<longleftrightarrow> compareSegments (segments a) (segments b) = 1"
    if "a \<in> ?T" "b \<in> ?T" for a b
  proof -
    from T [OF that(1)] T [OF that(2)] have c: "Compare cp a b =
        (if go_String a = go_String b \<or> segments a = segments b then 0
         else compareSegments (segments a) (segments b))"
      by (simp add: Compare_release)
    have "segments a = segments b" if "go_String a = go_String b"
      using T [OF \<open>a \<in> ?T\<close>] T [OF \<open>b \<in> ?T\<close>] that by (intro go_String_segments) simp_all
    then show ?thesis
      using compareSegments_range [of "segments a" "segments b"]
        compareSegments_refl [of "segments a"]
      by (auto simp: c)
  qed
  show ?thesis
    unfolding strict_on_def
  proof (intro conjI ballI impI)
    fix a assume "a \<in> ?T"
    then show "\<not> GreaterThan (go_version cp) a a"
      by (simp add: go_version_simps gt compareSegments_refl)
  next
    fix a b c assume "a \<in> ?T" "b \<in> ?T" "c \<in> ?T"
      and "GreaterThan (go_version cp) a b" "GreaterThan (go_version cp) b c"
    then show "GreaterThan (go_version cp) a c"
      using T [of a] T [of b] T [of c]
        compareSegments_trans [of "segments a" "segments b" "segments c"]
      by (simp add: go_version_simps gt)
  qed
qed


lemma candidates_go_version:
  "candidates (go_version cp) versions = candidates (go_version cp') versions"
  by (induction versions) (auto simp: go_version_simps split: option.splits)

lemma loop_go_version:
  "(case lv of None \<Rightarrow> True | Some l \<Rightarrow> pre l = []) \<Longrightarrow>
   lastVersion_loop (go_version cp) lv versions = lastVersion_loop (go_version cp') lv versions"
proof (induction versions arbitrary: lv)
  case Nil
  then show ?case by simp
next
  case (Cons s versions)
  show ?case
  proof (cases "go_NewVersion s")
    case None
    with Cons show ?thesis by (simp add: go_version_simps)
  next
    case (Some v)
    show ?thesis
    proof (cases "pre v = []")
      case False
      with Some Cons show ?thesis by (simp add: go_version_simps)
    next
      case True
      have "(0 < Compare cp v l) = (0 < Compare cp' v l)" if "lv = Some l" for l
        using that Cons.prems True by (simp add: Compare_release)
      with Some True Cons.IH [of "Some v"] Cons.IH [of lv] Cons.prems show ?thesis
        by (auto simp: go_version_simps split: option.splits)
    qed
  qed
qed

lemma lastVersionStr_go_version:
  "lastVersionStr (go_version cp) versions = lastVersionStr (go_version cp') versions"
  using loop_go_version [of None cp versions cp']
  by (auto simp: lastVersionStr_def go_version_simps split: option.splits)

section \<open>The claims about the normalisation of specifiers\<close>

text \<open>
  C2. The loader prefixes go before the test for a relative path. A specifier with a
  \<^verbatim>\<open>!\<close> is some \<open>p\<close>, a \<^verbatim>\<open>!\<close>, and the part behind its last \<^verbatim>\<open>!\<close>, and its result is the
  result for that part. For every specifier \<open>p!q\<close> whose part \<open>q\<close> has no \<^verbatim>\<open>!\<close>, the
  result is that of \<open>q\<close> alone, and it is none exactly when \<open>q\<close>, not \<open>p\<close>, begins with a
  dot. So \<^verbatim>\<open>loaderA!loaderB!./local\<close> gives none and \<^verbatim>\<open>loaderA!pkg/sub\<close> gives \<^verbatim>\<open>pkg\<close>.
\<close>

theorem loader_prefix_stripped_first:
  "(CHR ''!'' \<in> set raw \<longrightarrow>
      (\<exists>p. raw = p @ ''!'' @ remainder raw) \<and>
      normalizeSpecifier raw = normalizeSpecifier (remainder raw)) \<and>
   (CHR ''!'' \<notin> set q \<longrightarrow>
      normalizeSpecifier (p @ ''!'' @ q) = normalizeSpecifier q \<and>
      (normalizeSpecifier (p @ ''!'' @ q) = Inr None \<longleftrightarrow> HasPrefix q ''.''))"
proof (intro conjI impI)
  assume "CHR ''!'' \<in> set raw"
  from split_last_char [OF this]
  obtain p' q' where raw: "raw = p' @ CHR ''!'' # q'" and q': "CHR ''!'' \<notin> set q'"
    by (elim exE conjE)
  from q' have "remainder raw = q'"
    unfolding raw using remainder_append [of q' p'] by simp
  with raw show "\<exists>p. raw = p @ ''!'' @ remainder raw" by auto
next
  have "remainder (remainder raw) = remainder raw"
    by (rule remainder_no_bang) (rule remainder_free)
  then show "normalizeSpecifier raw = normalizeSpecifier (remainder raw)"
    by (simp add: normalize_eq [of raw] normalize_eq [of "remainder raw"])
next
  assume "CHR ''!'' \<notin> set q"
  then show "normalizeSpecifier (p @ ''!'' @ q) = normalizeSpecifier q"
    by (simp add: normalize_eq [of "p @ ''!'' @ q"] normalize_eq [of q] remainder_append
        remainder_no_bang del: append.simps)
next
  assume "CHR ''!'' \<notin> set q"
  then show "normalizeSpecifier (p @ ''!'' @ q) = Inr None \<longleftrightarrow> HasPrefix q ''.''"
    by (simp add: normalize_eq [of "p @ ''!'' @ q"] remainder_append del: append.simps)
qed

theorem loader_prefix_stripped_first_witness:
  "normalizeSpecifier (''loaderA!loaderB'' @ ''!'' @ ''./local'') = Inr None \<and>
   normalizeSpecifier (''loaderA'' @ ''!'' @ ''pkg/sub'') = Inr (Some ''pkg'') \<and>
   normalizeSpecifier (''./loaderA'' @ ''!'' @ ''pkg/sub'') = Inr (Some ''pkg'')"
proof -
  have local: "CHR ''!'' \<notin> set ''./local''" and pkg: "CHR ''!'' \<notin> set ''pkg/sub''"
    by simp_all
  have dot: "HasPrefix ''./local'' ''.''"
    by (simp add: HasPrefix_def)
  have sub: "normalizeSpecifier ''pkg/sub'' = Inr (Some ''pkg'')"
    by code_simp
  from loader_prefix_stripped_first [of _ "''./local''" "''loaderA!loaderB''"] local dot
  have "normalizeSpecifier (''loaderA!loaderB'' @ ''!'' @ ''./local'') = Inr None"
    by blast
  moreover from loader_prefix_stripped_first [of _ "''pkg/sub''" "''loaderA''"] pkg sub
  have "normalizeSpecifier (''loaderA'' @ ''!'' @ ''pkg/sub'') = Inr (Some ''pkg'')"
    by metis
  moreover from loader_prefix_stripped_first [of _ "''pkg/sub''" "''./loaderA''"] pkg sub
  have "normalizeSpecifier (''./loaderA'' @ ''!'' @ ''pkg/sub'') = Inr (Some ''pkg'')"
    by metis
  ultimately show ?thesis by (intro conjI)
qed

text \<open>
  C4. With \<open>m\<close> what is left of the specifier behind its loader prefixes, and \<open>m\<close> not
  relative: if \<open>m\<close> has a \<^verbatim>\<open>/\<close>, the result is its first two segments joined by \<^verbatim>\<open>/\<close>
  when \<open>m\<close> begins with \<^verbatim>\<open>@\<close> and its first segment otherwise; if \<open>m\<close> has no \<^verbatim>\<open>/\<close>,
  the result is \<open>m\<close> itself.
\<close>

theorem normalize_segments:
  "\<not> HasPrefix (remainder raw) ''.'' \<Longrightarrow>
     normalizeSpecifier raw =
       Inr (Some (if CHR ''/'' \<in> set (remainder raw)
                  then (if HasPrefix (remainder raw) ''@''
                        then segment 0 (remainder raw) @ ''/'' @ segment 1 (remainder raw)
                        else segment 0 (remainder raw))
                  else remainder raw))"
  by (simp add: normalize_eq)

theorem normalize_segments_witness:
  "normalizeSpecifier ''@scope/name/extra/path'' = Inr (Some ''@scope/name'') \<and>
   normalizeSpecifier ''name/extra/path'' = Inr (Some ''name'') \<and>
   normalizeSpecifier ''react'' = Inr (Some ''react'')"
proof -
  have r: "remainder ''@scope/name/extra/path'' = ''@scope/name/extra/path''"
    "remainder ''name/extra/path'' = ''name/extra/path''"
    "remainder ''react'' = ''react''"
    by (simp_all add: remainder_def)
  have "\<not> HasPrefix (remainder ''@scope/name/extra/path'') ''.''"
    "\<not> HasPrefix (remainder ''name/extra/path'') ''.''"
    "\<not> HasPrefix (remainder ''react'') ''.''"
    by (simp_all add: r HasPrefix_def)
  from this [THEN normalize_segments] show ?thesis
    by (simp add: r HasPrefix_def)
qed

text \<open>
  C5. Normalisation is idempotent: a package name that is the result for some specifier
  is its own result.
\<close>

theorem normalize_idempotent:
  assumes "normalizeSpecifier raw = Inr (Some p)"
  shows "normalizeSpecifier p = Inr (Some p)"
proof -
  let ?m = "remainder raw"
  from assms have rel: "\<not> HasPrefix ?m ''.''"
    by (auto simp: normalize_eq split: if_splits)
  from assms rel have p: "p = (if CHR ''/'' \<in> set ?m
       then (if HasPrefix ?m ''@'' then segment 0 ?m @ ''/'' @ segment 1 ?m else segment 0 ?m)
       else ?m)"
    by (simp add: normalize_eq)
  have sub: "set p \<subseteq> set ?m \<union> {CHR ''/''}"
    using set_segment [of 0 ?m] set_segment [of 1 ?m] by (auto simp: p)
  have "CHR ''!'' \<notin> set p"
    using sub remainder_free [of raw] by auto
  then have rp: "remainder p = p" by (rule remainder_no_bang)
  show ?thesis
  proof (cases "CHR ''/'' \<in> set ?m")
    case False
    with p rel have "CHR ''/'' \<notin> set p" and "\<not> HasPrefix p ''.''" by simp_all
    then show ?thesis by (simp add: normalize_eq [of p] rp)
  next
    case slash: True
    show ?thesis
    proof (cases "HasPrefix ?m ''@''")
      case True
      with slash p have p': "p = segment 0 ?m @ CHR ''/'' # segment 1 ?m" by simp
      have a: "HasPrefix p ''@''" and d: "\<not> HasPrefix p ''.''"
        using True rel unfolding p' by (cases ?m; auto simp: HasPrefix_char)+
      have s0: "segment 0 p = segment 0 ?m"
        unfolding p' by (rule segment0_append) (rule segment_free)
      have s1: "segment 1 p = segment 1 ?m"
        unfolding p' by (simp only: segment1_append [OF segment_free] segment0_free [OF segment_free])
      have "CHR ''/'' \<in> set p" by (simp add: p')
      moreover have "segment 0 p @ ''/'' @ segment 1 p = p"
        by (simp only: s0 s1) (simp add: p')
      ultimately show ?thesis
        using a d by (simp add: normalize_eq [of p] rp del: segment.simps)
    next
      case False
      with slash p have p': "p = segment 0 ?m" by simp
      have "CHR ''/'' \<notin> set p" unfolding p' by (rule segment_free)
      moreover have "\<not> HasPrefix p ''.''"
        using rel unfolding p' by (cases ?m) (auto simp: HasPrefix_char)
      moreover have "segment 0 p = p"
        unfolding p' by (rule segment0_free) (rule segment_free)
      ultimately show ?thesis by (simp add: normalize_eq [of p] rp del: segment.simps)
    qed
  qed
qed

theorem normalize_idempotent_witness:
  "normalizeSpecifier ''loader!@scope/name/extra/path'' = Inr (Some ''@scope/name'') \<and>
   normalizeSpecifier ''@scope/name'' = Inr (Some ''@scope/name'')"
proof -
  have "normalizeSpecifier ''loader!@scope/name/extra/path'' = Inr (Some ''@scope/name'')"
    by code_simp
  from this normalize_idempotent [OF this] show ?thesis by (rule conjI)
qed

text \<open>
  C3. The result for a specifier is none if and only if what is left of it behind its
  loader prefixes begins with a dot; a match whose joined captures are such a specifier
  adds nothing to the packages of \<^verbatim>\<open>Guess\<close>: the loop gives the same result with and
  without it, and every name that the loop adds is the result for a match whose specifier
  is not relative.
\<close>

theorem relative_specifier_skipped:
  "(normalizeSpecifier raw = Inr None \<longleftrightarrow> HasPrefix (remainder raw) ''.'') \<and>
   (HasPrefix (remainder (Join groups '''')) ''.'' \<longrightarrow>
      Guess_loop pkgs (before @ (whole # groups) # after) = Guess_loop pkgs (before @ after)) \<and>
   (Guess_loop Map.empty matches = Inr found \<and> name \<in> dom found \<longrightarrow>
      (\<exists>match \<in> set matches.
         normalizeSpecifier (Join (drop 1 match) '''') = Inr (Some name) \<and>
         \<not> HasPrefix (remainder (Join (drop 1 match) '''')) ''.''))"
proof -
  have "normalizeSpecifier raw = Inr None \<longleftrightarrow> HasPrefix (remainder raw) ''.''"
    by (simp add: normalize_eq)
  moreover have "Guess_loop pkgs (before @ (whole # groups) # after) = Guess_loop pkgs (before @ after)"
    if "HasPrefix (remainder (Join groups '''')) ''.''"
  proof -
    from that have "normalizeSpecifier (Join (drop 1 (whole # groups)) '''') = Inr None"
      by (simp add: normalize_eq)
    then have "Guess_loop p ((whole # groups) # after) = Guess_loop p after" for p
      by (intro Guess_loop_skip) simp_all
    then show ?thesis
      by (simp add: Guess_loop_append [of pkgs before] split: sum.splits)
  qed
  moreover have "\<exists>match \<in> set matches.
         normalizeSpecifier (Join (drop 1 match) '''') = Inr (Some name) \<and>
         \<not> HasPrefix (remainder (Join (drop 1 match) '''')) ''.''"
    if "Guess_loop Map.empty matches = Inr found" "name \<in> dom found"
  proof -
    from Guess_loop_dom [OF that(1)] that(2) obtain match where
      m: "match \<in> set matches" "normalizeSpecifier (Join (drop 1 match) '''') = Inr (Some name)"
      by auto
    from m(2) have "\<not> HasPrefix (remainder (Join (drop 1 match) '''')) ''.''"
      by (auto simp: normalize_eq split: if_splits)
    with m show ?thesis by blast
  qed
  ultimately show ?thesis by blast
qed

theorem relative_specifier_skipped_witness:
  \<open>normalizeSpecifier ''loader!./utils'' = Inr None \<and>
   HasPrefix (remainder (Join [[], [], ''./utils''] '''')) ''.'' \<and>
   Guess_loop Map.empty
     ([[''from "react";'', ''react'', [], []]] @
      (''require("./utils")'' # [[], [], ''./utils'']) #
      [[''import("lodash/debounce")'', [], [], ''lodash/debounce'']]) =
   Guess_loop Map.empty
     ([[''from "react";'', ''react'', [], []]] @
      [[''import("lodash/debounce")'', [], [], ''lodash/debounce'']])\<close>
proof -
  have a: "HasPrefix (remainder ''loader!./utils'') ''.''"
    by (simp add: remainder_def HasPrefix_def)
  have b: "HasPrefix (remainder (Join [[], [], ''./utils''] '''')) ''.''"
    by (simp add: remainder_def HasPrefix_def)
  from relative_specifier_skipped [of "''loader!./utils''"] a
  have "normalizeSpecifier ''loader!./utils'' = Inr None"
    by blast
  moreover from relative_specifier_skipped [of _ "[[], [], ''./utils'']"] b
  have \<open>Guess_loop Map.empty
     ([[''from "react";'', ''react'', [], []]] @
      (''require("./utils")'' # [[], [], ''./utils'']) #
      [[''import("lodash/debounce")'', [], [], ''lodash/debounce'']]) =
   Guess_loop Map.empty
     ([[''from "react";'', ''react'', [], []]] @
      [[''import("lodash/debounce")'', [], [], ''lodash/debounce'']])\<close>
    by blast
  ultimately show ?thesis using b by (intro conjI)
qed

text \<open>
  C6. Whatever the source tree and the list of built-in names, \<^verbatim>\<open>Guess\<close> returns the
  candidates of its first loop (the names that are the results for the matches) without
  the names that are equal to a built-in name, and with every other candidate: no
  returned name is a built-in name, and a candidate that is not equal to one is returned.
\<close>

theorem builtins_removed_by_equality:
  "\<exists>cand pkgs.
     Guess_loop Map.empty (SearchRecursive guess_re nodejsPatterns files) = Inr cand \<and>
     dom cand = {name. \<exists>match \<in> set (SearchRecursive guess_re nodejsPatterns files).
                   normalizeSpecifier (Join (drop 1 match) '''') = Inr (Some name)} \<and>
     Guess files (Inr \<lparr>lines = builtins, err = None\<rparr>) = Inr pkgs \<and>
     pkgs = (\<lambda>name. if name \<in> set builtins then None else cand name) \<and>
     dom pkgs \<inter> set builtins = {} \<and>
     dom pkgs = dom cand - set builtins"
proof -
  from Guess_loop_total [OF SearchRecursive_nonempty]
  obtain cand where
    cand: "Guess_loop Map.empty (SearchRecursive guess_re nodejsPatterns files) = Inr cand"
    by blast
  let ?pkgs = "\<lambda>name. if name \<in> set builtins then None else cand name"
  have "Guess files (Inr \<lparr>lines = builtins, err = None\<rparr>) = Inr ?pkgs"
    by (simp add: Guess_def cand delete_loop_eq)
  moreover have "dom ?pkgs \<inter> set builtins = {}" "dom ?pkgs = dom cand - set builtins"
    by (auto simp: dom_def)
  moreover note cand Guess_loop_dom [OF cand]
  ultimately show ?thesis by (intro exI [of _ cand] exI [of _ ?pkgs]) simp
qed

theorem builtins_removed_by_equality_witness:
  "Guess [(''lib/main.ts'', source_builtins)] (Inr \<lparr>lines = [''fs'', ''path''], err = None\<rparr>) =
     Inr [''fs-extra'' \<mapsto> True, ''@types/path'' \<mapsto> True]"
proof -
  have m: \<open>SearchRecursive guess_re nodejsPatterns [(''lib/main.ts'', source_builtins)] =
      [[''require("fs")'', [], [], ''fs''],
       [''require("fs-extra")'', [], [], ''fs-extra''],
       [''from "@types/path";'', ''@types/path'', [], []]]\<close>
    by code_simp
  have n: "normalizeSpecifier ''fs'' = Inr (Some ''fs'')"
    "normalizeSpecifier ''fs-extra'' = Inr (Some ''fs-extra'')"
    "normalizeSpecifier ''@types/path'' = Inr (Some ''@types/path'')"
    by code_simp+
  have "Guess_loop Map.empty (SearchRecursive guess_re nodejsPatterns [(''lib/main.ts'', source_builtins)]) =
      Inr [''fs'' \<mapsto> True, ''fs-extra'' \<mapsto> True, ''@types/path'' \<mapsto> True]"
    by (simp add: m n)
  with builtins_removed_by_equality [of "[(''lib/main.ts'', source_builtins)]" "[''fs'', ''path'']"]
  obtain pkgs where
    g: "Guess [(''lib/main.ts'', source_builtins)] (Inr \<lparr>lines = [''fs'', ''path''], err = None\<rparr>) = Inr pkgs"
    and pkgs: "pkgs = (\<lambda>name. if name \<in> set [''fs'', ''path''] then None
                      else [''fs'' \<mapsto> True, ''fs-extra'' \<mapsto> True, ''@types/path'' \<mapsto> True] name)"
    by auto
  have "pkgs = [''fs-extra'' \<mapsto> True, ''@types/path'' \<mapsto> True]"
    unfolding pkgs by (rule ext) simp
  with g show ?thesis by simp
qed

text \<open>
  C7. The example: over a source file with the lines \<^verbatim>\<open>import React from "react";\<close>,
  \<^verbatim>\<open>require("./utils")\<close> and \<^verbatim>\<open>import("lodash/debounce")\<close>, and with the built-in
  modules \<^verbatim>\<open>fs\<close> and \<^verbatim>\<open>path\<close>, \<^verbatim>\<open>Guess\<close> returns the set of \<^verbatim>\<open>react\<close> and
  \<^verbatim>\<open>lodash\<close>.
\<close>

theorem guess_example:
  "Guess [(''index.js'', source_example)] (Inr \<lparr>lines = [''fs'', ''path''], err = None\<rparr>) =
     Inr [''react'' \<mapsto> True, ''lodash'' \<mapsto> True]"
proof -
  have m: \<open>SearchRecursive guess_re nodejsPatterns [(''index.js'', source_example)] =
      [[''from "react";'', ''react'', [], []],
       [''require("./utils")'', [], [], ''./utils''],
       [''import("lodash/debounce")'', [], [], ''lodash/debounce'']]\<close>
    by code_simp
  have n: "normalizeSpecifier ''react'' = Inr (Some ''react'')"
    "normalizeSpecifier ''./utils'' = Inr None"
    "normalizeSpecifier ''lodash/debounce'' = Inr (Some ''lodash'')"
    by code_simp+
  show ?thesis
    by (simp add: Guess_def m n delete_loop_eq fun_eq_iff)
qed

theorem guess_example_witness:
  "\<exists>pkgs. Guess [(''index.js'', source_example)] (Inr \<lparr>lines = [''fs'', ''path''], err = None\<rparr>) = Inr pkgs \<and>
     dom pkgs = {''react'', ''lodash''}"
  using guess_example by auto

section \<open>The claims about the lock file and the manifest\<close>

text \<open>
  C8. For every lock-file text \<^verbatim>\<open>ListLockfile\<close> returns a mapping, and the mapping takes
  a name to the version of the last match with that name (\<open>map_of\<close> on the reversed list
  of the pairs looks a name up from the last match backwards). On the text of the
  example the result is \<^verbatim>\<open>left-pad\<close> at 1.3.0 and \<^verbatim>\<open>right-pad\<close> at 1.1.0.
\<close>

theorem lockfile_last_match_wins:
  "ListLockfile (Inr contents) =
     Inr (map_of (rev (map (\<lambda>m. (m ! 1, m ! 2)) (FindAllStringSubmatch lockfile_re contents)))) \<and>
   ListLockfile (Inr lock_example) = Inr [''left-pad'' \<mapsto> ''1.3.0'', ''right-pad'' \<mapsto> ''1.1.0'']"
proof -
  have "map (\<lambda>m. (m ! 1, m ! 2)) (FindAllStringSubmatch lockfile_re lock_example) =
      [(''left-pad'', ''1.3.0''), (''right-pad'', ''1.1.0'')]"
    by code_simp
  then have "ListLockfile (Inr lock_example) = Inr [''left-pad'' \<mapsto> ''1.3.0'', ''right-pad'' \<mapsto> ''1.1.0'']"
    by (simp add: ListLockfile_total)
  with ListLockfile_total show ?thesis by (intro conjI)
qed

theorem lockfile_last_match_wins_witness:
  "ListLockfile (Inr lock_twice) = Inr [''left-pad'' \<mapsto> ''2.0.0'']"
proof -
  have "map (\<lambda>m. (m ! 1, m ! 2)) (FindAllStringSubmatch lockfile_re lock_twice) =
      [(''left-pad'', ''1.3.0''), (''left-pad'', ''2.0.0'')]"
    by code_simp
  with lockfile_last_match_wins [of lock_twice] show ?thesis by simp
qed

text \<open>
  C10. For every lock-file text, no name in the result of \<^verbatim>\<open>ListLockfile\<close> has an \<^verbatim>\<open>@\<close>
  or a space; and for the block of a scoped package, \<^verbatim>\<open>"@scope/pkg@^1.0.0":\<close> with its
  version line, the name is the double quote alone.
\<close>

theorem lockfile_names:
  \<open>(\<exists>pkgs. ListLockfile (Inr contents) = Inr pkgs \<and>
      (\<forall>name \<in> dom pkgs. CHR ''@'' \<notin> set name \<and> CHR '' '' \<notin> set name)) \<and>
   ListLockfile (Inr lock_scoped) = Inr [''"'' \<mapsto> ''1.0.0'']\<close>
proof -
  have \<open>map (\<lambda>m. (m ! 1, m ! 2)) (FindAllStringSubmatch lockfile_re lock_scoped) =
      [(''"'', ''1.0.0'')]\<close>
    by code_simp
  then have \<open>ListLockfile (Inr lock_scoped) = Inr [''"'' \<mapsto> ''1.0.0'']\<close>
    by (simp add: ListLockfile_total)
  moreover have "\<exists>pkgs. ListLockfile (Inr contents) = Inr pkgs \<and>
      (\<forall>name \<in> dom pkgs. CHR ''@'' \<notin> set name \<and> CHR '' '' \<notin> set name)"
    using ListLockfile_names [of contents] by (auto simp: ListLockfile_total)
  ultimately show ?thesis by (intro conjI)
qed

theorem lockfile_names_witness:
  \<open>\<exists>pkgs. ListLockfile (Inr lock_scoped) = Inr pkgs \<and> ''"'' \<in> dom pkgs \<and>
     CHR ''@'' \<notin> set ''"'' \<and> CHR '' '' \<notin> set ''"''\<close>
  using lockfile_names [of lock_scoped] by auto

text \<open>
  C9. \<^verbatim>\<open>ListSpecfile\<close> merges the two groups of the decoded manifest, in whatever order
  the entries of each group are visited: a name of the development group has the
  specification of that group, any other name the one of the runtime group. For the
  manifest with \<^verbatim>\<open>a\<close> at \<^verbatim>\<open>^1.0.0\<close> in \<^verbatim>\<open>dependencies\<close> and \<^verbatim>\<open>a\<close> at \<^verbatim>\<open>^2.0.0\<close>,
  \<^verbatim>\<open>b\<close> at \<^verbatim>\<open>^1.0.0\<close> in \<^verbatim>\<open>devDependencies\<close> the result is \<^verbatim>\<open>a\<close> at \<^verbatim>\<open>^2.0.0\<close> and
  \<^verbatim>\<open>b\<close> at \<^verbatim>\<open>^1.0.0\<close>.
\<close>

theorem specfile_dev_overrides:
  "(Unmarshal contents = Inr cfg \<and> distinct (map fst (Dependencies cfg)) \<and>
    distinct (map fst (DevDependencies cfg)) \<longrightarrow>
      ListSpecfile Unmarshal (Inr contents) =
        Inr (map_of (Dependencies cfg) ++ map_of (DevDependencies cfg))) \<and>
   (Unmarshal contents =
      Inr \<lparr>Dependencies = [(''a'', ''^1.0.0'')],
           DevDependencies = [(''a'', ''^2.0.0''), (''b'', ''^1.0.0'')]\<rparr> \<longrightarrow>
      ListSpecfile Unmarshal (Inr contents) = Inr [''a'' \<mapsto> ''^2.0.0'', ''b'' \<mapsto> ''^1.0.0''])"
  by (auto simp: ListSpecfile_def range_assign_eq map_of_rev_distinct fun_eq_iff map_add_def)

theorem specfile_dev_overrides_witness:
  "ListSpecfile
     (\<lambda>contents. Inr \<lparr>Dependencies = [(''a'', ''^1.0.0'')],
                        DevDependencies = [(''b'', ''^1.0.0''), (''a'', ''^2.0.0'')]\<rparr>)
     (Inr ''{}'') =
   Inr [''a'' \<mapsto> ''^2.0.0'', ''b'' \<mapsto> ''^1.0.0'']"
proof -
  let ?cfg = "\<lparr>Dependencies = [(''a'', ''^1.0.0'')],
                DevDependencies = [(''b'', ''^1.0.0''), (''a'', ''^2.0.0'')]\<rparr>"
  have "distinct (map fst (Dependencies ?cfg))" "distinct (map fst (DevDependencies ?cfg))"
    by simp_all
  with specfile_dev_overrides [of "\<lambda>contents. Inr ?cfg" "''{}''" ?cfg]
  have "ListSpecfile (\<lambda>contents. Inr ?cfg) (Inr ''{}'') =
      Inr (map_of (Dependencies ?cfg) ++ map_of (DevDependencies ?cfg))"
    by blast
  also have "map_of (Dependencies ?cfg) ++ map_of (DevDependencies ?cfg) =
      [''a'' \<mapsto> ''^2.0.0'', ''b'' \<mapsto> ''^1.0.0'']"
    by (rule ext) (simp add: map_add_def)
  finally show ?thesis .
qed

section \<open>The claim about the latest version\<close>

text \<open>
  C1, as amended. Whatever the order in which the labels are visited: the labels that do
  not parse and the labels with a prerelease are skipped; with no candidate left (an
  empty set of labels, or every label skipped) the result is the empty string; otherwise
  it is the rendering, by the package's \<^verbatim>\<open>String\<close>, of a candidate than which no candidate
  is greater, \<^verbatim>\<open>GreaterThan\<close> being irreflexive and transitive on the candidates. The
  result is one of the labels when every candidate's rendering is its label.
\<close>

theorem latest_version_selection:
  assumes "strict_on (GreaterThan V) (set (candidates V versions))"
  shows "lastVersionStr V versions = lastVersionStr V (filter (is_candidate V) versions) \<and>
     (candidates V versions = [] \<longrightarrow> lastVersionStr V versions = '''') \<and>
     (candidates V versions \<noteq> [] \<longrightarrow>
        (\<exists>m \<in> set (candidates V versions).
           (\<forall>c \<in> set (candidates V versions). \<not> GreaterThan V c m) \<and>
           lastVersionStr V versions = String V m)) \<and>
     (candidates V versions \<noteq> [] \<and>
      (\<forall>s \<in> set versions.
         is_candidate V s \<longrightarrow> map_option (String V) (NewVersion V s) = Some s) \<longrightarrow>
        lastVersionStr V versions \<in> set versions)"
proof (intro conjI impI)
  show "lastVersionStr V versions = lastVersionStr V (filter (is_candidate V) versions)"
  proof (cases "candidates V versions = []")
    case True
    then have "lastVersion_loop V None versions = None"
      by (rule loop_none)
    moreover from this have "lastVersion_loop V None (filter (is_candidate V) versions) = None"
      by (simp add: loop_filter)
    ultimately show ?thesis by (simp add: lastVersionStr_def)
  next
    case False
    then have "versions \<noteq> []" "filter (is_candidate V) versions \<noteq> []"
      by (auto simp: candidates_filter [of V versions, symmetric] simp del: candidates_filter)
    then show ?thesis by (simp add: lastVersionStr_def loop_filter)
  qed
next
  assume "candidates V versions = []"
  then have "lastVersion_loop V None versions = None" by (rule loop_none)
  then show "lastVersionStr V versions = ''''" by (simp add: lastVersionStr_def)
next
  assume ne: "candidates V versions \<noteq> []"
  then have "versions \<noteq> []" by auto
  from assms ne loop_max [of V versions None]
  obtain m where m: "m \<in> set (candidates V versions)" "lastVersion_loop V None versions = Some m"
    "\<forall>c \<in> set (candidates V versions). \<not> GreaterThan V c m"
    by auto
  with \<open>versions \<noteq> []\<close> have "lastVersionStr V versions = String V m"
    by (simp add: lastVersionStr_def)
  with m show "\<exists>m \<in> set (candidates V versions).
           (\<forall>c \<in> set (candidates V versions). \<not> GreaterThan V c m) \<and>
           lastVersionStr V versions = String V m"
    by blast
next
  assume a: "candidates V versions \<noteq> [] \<and>
      (\<forall>s \<in> set versions.
         is_candidate V s \<longrightarrow> map_option (String V) (NewVersion V s) = Some s)"
  then have "versions \<noteq> []" by auto
  from assms a loop_max [of V versions None]
  obtain m where m: "m \<in> set (candidates V versions)" "lastVersion_loop V None versions = Some m"
    by auto
  from candidates_label [OF m(1)] obtain s where s: "s \<in> set versions" "NewVersion V s = Some m"
    "Prerelease V m = []"
    by blast
  then have "is_candidate V s" by (simp add: is_candidate_def)
  with a s have "String V m = s" by auto
  with m \<open>versions \<noteq> []\<close> s(1) show "lastVersionStr V versions \<in> set versions"
    by (simp add: lastVersionStr_def)
qed

theorem latest_version_selection_witness:
  "strict_on (GreaterThan (go_version no_order))
     (set (candidates (go_version no_order)
            [''1.0.0'', ''2.0.0-beta'', ''1.9.9'', ''not-a-version''])) \<and>
   map go_String (candidates (go_version no_order)
            [''1.0.0'', ''2.0.0-beta'', ''1.9.9'', ''not-a-version'']) = [''1.0.0'', ''1.9.9''] \<and>
   lastVersionStr (go_version no_order)
     [''1.0.0'', ''2.0.0-beta'', ''1.9.9'', ''not-a-version''] = ''1.9.9'' \<and>
   lastVersionStr (go_version no_order)
     [''1.0.0'', ''2.0.0-beta'', ''1.9.9'', ''not-a-version'']
     \<in> set [''1.0.0'', ''2.0.0-beta'', ''1.9.9'', ''not-a-version'']"
proof -
  let ?V = "go_version no_order"
  let ?vs = "[''1.0.0'', ''2.0.0-beta'', ''1.9.9'', ''not-a-version'']"
  have so: "strict_on (GreaterThan ?V) (set (candidates ?V ?vs))"
    by (rule go_version_strict)
  have cands: "map go_String (candidates ?V ?vs) = [''1.0.0'', ''1.9.9'']"
    by code_simp
  have res: "lastVersionStr ?V ?vs = ''1.9.9''"
    by code_simp
  have canon: "\<forall>s \<in> set ?vs. is_candidate ?V s \<longrightarrow> map_option (String ?V) (NewVersion ?V s) = Some s"
    by code_simp
  from cands have "candidates ?V ?vs \<noteq> []" by auto
  with latest_version_selection [OF so] canon have "lastVersionStr ?V ?vs \<in> set ?vs"
    by blast
  with so cands res show ?thesis by (intro conjI)
qed

text \<open>
  For the version package as modelled here the order is strict on the candidates of every
  set of labels (\<open>go_version_strict\<close>), and the result does not depend on the order of
  prereleases (\<open>lastVersionStr_go_version\<close>): with a candidate left, the result is the
  rendering of a candidate than which none is greater.
\<close>

lemma go_version_latest:
  "candidates (go_version cp) versions \<noteq> [] \<Longrightarrow>
     \<exists>m \<in> set (candidates (go_version cp) versions).
        (\<forall>c \<in> set (candidates (go_version cp) versions). \<not> 0 < Compare cp c m) \<and>
        lastVersionStr (go_version cp) versions = go_String m"
proof -
  assume ne: "candidates (go_version cp) versions \<noteq> []"
  then have "versions \<noteq> []" by auto
  from ne go_version_strict [of cp versions] loop_max [of "go_version cp" versions None]
  obtain m where m: "m \<in> set (candidates (go_version cp) versions)"
    "lastVersion_loop (go_version cp) None versions = Some m"
    "\<forall>c \<in> set (candidates (go_version cp) versions). \<not> GreaterThan (go_version cp) c m"
    by auto
  with \<open>versions \<noteq> []\<close> show ?thesis
    by (auto simp: lastVersionStr_def go_version_simps)
qed

text \<open>
  C1 as it is stated fails: the only label \<^verbatim>\<open>1.0\<close> parses, carries no prerelease, and is
  rendered as \<^verbatim>\<open>1.0.0\<close>, which is not a label of the set; likewise \<^verbatim>\<open>v1.2.3\<close> is
  rendered as \<^verbatim>\<open>1.2.3\<close>.
\<close>

theorem latest_version_label_counterexample:
  "lastVersionStr (go_version no_order) [''1.0''] = ''1.0.0'' \<and> ''1.0.0'' \<notin> set [''1.0''] \<and>
   lastVersionStr (go_version no_order) [''v1.2.3''] = ''1.2.3'' \<and> ''1.2.3'' \<notin> set [''v1.2.3'']"
  by code_simp

text \<open>
  Two labels that differ in their metadata only compare equal, and the result is the one
  that the iteration visits first.
\<close>

lemma latest_version_order_of_visit:
  "lastVersionStr (go_version no_order) [''1.0.0+a'', ''1.0.0+b''] = ''1.0.0+a'' \<and>
   lastVersionStr (go_version no_order) [''1.0.0+b'', ''1.0.0+a''] = ''1.0.0+b''"
  by code_simp

end
